theory Spec2Isabelle
  imports
    Main
    "HOL-Library.Char_ord"
    "HOL-Library.List_Lexorder"
    "HOL-Library.Multiset"
begin

section \<open>The execution-layer script: cut discovery and template substitution\<close>

text \<open>
  This theory embeds \<^verbatim>\<open>scripts/execution_layer.py\<close>: the argument validator
  \<^verbatim>\<open>feature\<close>, the registry builder \<^verbatim>\<open>discover_cuts\<close> and the template engine of
  \<^verbatim>\<open>generate_lib\<close>.

  Scope of the embedding.
  \<^item> A Python \<^verbatim>\<open>str\<close> is a \<^typ>\<open>string\<close>; a \<^typ>\<open>char\<close> stands for the code point of
    the same number, so the strings covered are those over code points 0 to 255. Ordering
    of strings is Python's: lexicographic by code point.
  \<^item> Module names are strings without the code points 181 and 255: \<^verbatim>\<open>str.upper\<close> sends
    these two, and no other code point below 256, to code points above 255 (924 and 376).
  \<^item> A directory entry (a \<^verbatim>\<open>Path\<close> yielded by \<^verbatim>\<open>iterdir\<close>) is known to the code only
    through \<^verbatim>\<open>stem\<close> and \<^verbatim>\<open>is_file()\<close>, so it is a record of these two. The listing is
    a list: \<^verbatim>\<open>iterdir\<close> yields the entries in an order of its own choosing.
  \<^item> Exceptions are values of \<open>error\<close>; a function that can raise returns \<open>error + 'a\<close>.
\<close>

subsection \<open>Python primitives\<close>

datatype error =
    ValueError
  | AssertionError string
  | ArgumentTypeError string

text \<open>Character classes of the regular expressions: \<^verbatim>\<open>[0-9]\<close>, \<^verbatim>\<open>[a-z]\<close>, \<^verbatim>\<open>[A-Z_]\<close>,
  \<^verbatim>\<open>[a-zA-Z0-9_]\<close>, and \<^verbatim>\<open>\s\<close>, which for a \<^verbatim>\<open>str\<close> pattern is \<^verbatim>\<open>str.isspace\<close>: below 256 these
  are the code points 9 to 13, 28 to 32, 133 and 160.\<close>

definition is_digit :: "char \<Rightarrow> bool" where
  "is_digit c \<longleftrightarrow> c \<in> set ''0123456789''"

definition is_lower :: "char \<Rightarrow> bool" where
  "is_lower c \<longleftrightarrow> c \<in> set ''abcdefghijklmnopqrstuvwxyz''"

definition is_upper :: "char \<Rightarrow> bool" where
  "is_upper c \<longleftrightarrow> c \<in> set ''ABCDEFGHIJKLMNOPQRSTUVWXYZ''"

definition is_upper_us :: "char \<Rightarrow> bool" where
  "is_upper_us c \<longleftrightarrow> is_upper c \<or> c = CHR ''_''"

definition is_ident_char :: "char \<Rightarrow> bool" where
  "is_ident_char c \<longleftrightarrow> is_lower c \<or> is_upper c \<or> is_digit c \<or> c = CHR ''_''"

definition is_space :: "char \<Rightarrow> bool" where
  "is_space c \<longleftrightarrow>
     c \<in> {CHR 0x09, CHR 0x0A, CHR 0x0B, CHR 0x0C, CHR 0x0D,
          CHR 0x1C, CHR 0x1D, CHR 0x1E, CHR 0x1F, CHR 0x20, CHR 0x85, CHR 0xA0}"

text \<open>\<^verbatim>\<open>str.upper\<close>. Below 256 it changes the letters \<^verbatim>\<open>a\<close> to \<^verbatim>\<open>z\<close>, the letters at the code
  points 224 to 254 except 247 (each goes 32 down), and the code point 223, which becomes
  the two letters \<^verbatim>\<open>SS\<close>. The code points 181 and 255 are not covered (they go to 924 and
  376); the definition leaves them as they are.\<close>

definition upper_char :: "char \<Rightarrow> string" where
  "upper_char c =
     (if is_lower c then [char_of (of_char c - (32::nat))]
      else if c = CHR 0xDF then ''SS''
      else if (224::nat) \<le> of_char c \<and> of_char c \<le> (254::nat) \<and> c \<noteq> CHR 0xF7
        then [char_of (of_char c - (32::nat))]
      else [c])"

definition upper :: "string \<Rightarrow> string" where
  "upper s = concat (map upper_char s)"

text \<open>\<^verbatim>\<open>str(n)\<close> for an integer: decimal, with a minus sign for a negative number.\<close>

definition digit_char :: "nat \<Rightarrow> char" where
  "digit_char d = ''0123456789'' ! d"

fun str_nat :: "nat \<Rightarrow> string" where
  "str_nat n = (if n < 10 then [digit_char n] else str_nat (n div 10) @ [digit_char (n mod 10)])"

declare str_nat.simps [simp del]

definition str :: "int \<Rightarrow> string" where
  "str i = (if i < 0 then CHR ''-'' # str_nat (nat (- i)) else str_nat (nat i))"

text \<open>\<^verbatim>\<open>int(s)\<close> for a string: whitespace is stripped at both ends, one sign is allowed,
  then come decimal digits, where single underscores may stand between two digits.
  Anything else raises \<^verbatim>\<open>ValueError\<close> (here \<open>None\<close>; the callers turn it into the error).
  Leading zeros are accepted. The whitespace that \<^verbatim>\<open>int\<close> strips is, below 256, the code
  points 9 to 13, 32, 133 and 160 (not 28 to 31, which \<^verbatim>\<open>str.isspace\<close> accepts). CPython
  refuses more than 4300 digits; the strings parsed here are parts of file names, which
  are shorter.\<close>

definition is_int_space :: "char \<Rightarrow> bool" where
  "is_int_space c \<longleftrightarrow>
     c \<in> {CHR 0x09, CHR 0x0A, CHR 0x0B, CHR 0x0C, CHR 0x0D, CHR 0x20, CHR 0x85, CHR 0xA0}"

definition digit_val :: "char \<Rightarrow> int" where
  "digit_val c = int (of_char c) - 48"

fun parse_digits :: "int \<Rightarrow> string \<Rightarrow> int option" where
  "parse_digits acc [] = None"
| "parse_digits acc [c] = (if is_digit c then Some (acc * 10 + digit_val c) else None)"
| "parse_digits acc (c # d # cs) =
     (if is_digit c then
        (if d = CHR ''_'' then parse_digits (acc * 10 + digit_val c) cs
         else parse_digits (acc * 10 + digit_val c) (d # cs))
      else None)"

definition strip :: "string \<Rightarrow> string" where
  "strip s = rev (dropWhile is_int_space (rev (dropWhile is_int_space s)))"

definition py_int :: "string \<Rightarrow> int option" where
  "py_int s =
     (case strip s of
        [] \<Rightarrow> None
      | c # cs \<Rightarrow>
          if c = CHR ''-'' then map_option uminus (parse_digits 0 cs)
          else if c = CHR ''+'' then parse_digits 0 cs
          else parse_digits 0 (c # cs))"

text \<open>\<^verbatim>\<open>sep.join(xs)\<close>.\<close>

fun join :: "string \<Rightarrow> string list \<Rightarrow> string" where
  "join sep [] = []"
| "join sep [x] = x"
| "join sep (x # y # ys) = x @ sep @ join sep (y # ys)"

subsection \<open>The argument validator\<close>

text \<open>\<^verbatim>\<open>re.match(r"[a-z][a-zA-Z0-9_]*", f)\<close>: \<^verbatim>\<open>re.match\<close> anchors the pattern at the start
  of the string only. The result is the matched text (the match object), or \<open>None\<close>.\<close>

definition re_match_feature :: "string \<Rightarrow> string option" where
  "re_match_feature f =
     (case f of
        [] \<Rightarrow> None
      | c # cs \<Rightarrow> if is_lower c then Some (c # takeWhile is_ident_char cs) else None)"

definition feature :: "string \<Rightarrow> error + string" where
  "feature f = (if re_match_feature f \<noteq> None then Inr f else Inl (ArgumentTypeError f))"

subsection \<open>Cut discovery and version assignment\<close>

record path =
  stem :: string
  is_file :: bool

text \<open>A cut is the 3-tuple of the source: version, optional constant name, module name.\<close>

type_synonym cut = "string \<times> string option \<times> string"

definition NOT_A_CUT :: "string set" where
  "NOT_A_CUT = {''executor'', ''lib'', ''lib.template'', ''tests'', ''verifier''}"

text \<open>\<^verbatim>\<open>re.match(r"latest|v[0-9]+", f.stem)\<close>, again anchored at the start only.\<close>

definition re_match_snapshot :: "string \<Rightarrow> string option" where
  "re_match_snapshot s =
     (if take 6 s = ''latest'' then Some ''latest''
      else case s of
        [] \<Rightarrow> None
      | c # cs \<Rightarrow>
          if c = CHR ''v'' \<and> takeWhile is_digit cs \<noteq> [] then Some (c # takeWhile is_digit cs)
          else None)"

datatype kind = Excluded | Snapshot | Feature

text \<open>The three branches of the loop over \<^verbatim>\<open>src.iterdir()\<close>; the first two tests are
  the operands of the short-circuit \<^verbatim>\<open>or\<close>.\<close>

definition classify :: "path \<Rightarrow> kind" where
  "classify f =
     (if \<not> is_file f then Excluded
      else if stem f \<in> NOT_A_CUT then Excluded
      else if re_match_snapshot (stem f) \<noteq> None then Snapshot
      else Feature)"

text \<open>The sort key of a snapshot: \<^verbatim>\<open>float("inf")\<close> or an integer. Python compares an
  integer with the float infinity exactly; infinity is above every integer and equal
  to itself.\<close>

datatype skey = Num int | Infinity

instantiation skey :: linorder
begin

fun less_eq_skey :: "skey \<Rightarrow> skey \<Rightarrow> bool" where
  "less_eq_skey (Num a) (Num b) = (a \<le> b)"
| "less_eq_skey (Num a) Infinity = True"
| "less_eq_skey Infinity (Num b) = False"
| "less_eq_skey Infinity Infinity = True"

definition less_skey :: "skey \<Rightarrow> skey \<Rightarrow> bool" where
  "less_skey x y \<longleftrightarrow> x \<le> y \<and> \<not> y \<le> x"

instance
proof
  fix x y z :: skey
  show "(x < y) = (x \<le> y \<and> \<not> y \<le> x)" by (simp add: less_skey_def)
  show "x \<le> x" by (cases x) simp_all
  show "x \<le> y \<Longrightarrow> y \<le> z \<Longrightarrow> x \<le> z" by (cases x; cases y; cases z) simp_all
  show "x \<le> y \<Longrightarrow> y \<le> x \<Longrightarrow> x = y" by (cases x; cases y) simp_all
  show "x \<le> y \<or> y \<le> x" by (cases x; cases y) auto
qed

end

definition snapshot_key :: "path \<Rightarrow> error + skey" where
  "snapshot_key p =
     (if stem p = ''latest'' then Inr Infinity
      else case py_int (tl (stem p)) of
        None \<Rightarrow> Inl ValueError
      | Some n \<Rightarrow> Inr (Num n))"

definition feature_key :: "path \<Rightarrow> string" where
  "feature_key p = stem p"

text \<open>\<^verbatim>\<open>list.sort(key=...)\<close> computes the key of every element first (an exception of the
  key function leaves the sort), then sorts stably by the keys.\<close>

fun keyed :: "('a \<Rightarrow> error + 'k) \<Rightarrow> 'a list \<Rightarrow> error + ('k \<times> 'a) list" where
  "keyed kf [] = Inr []"
| "keyed kf (x # xs) =
     (case kf x of
        Inl e \<Rightarrow> Inl e
      | Inr k \<Rightarrow> (case keyed kf xs of Inl e \<Rightarrow> Inl e | Inr kxs \<Rightarrow> Inr ((k, x) # kxs)))"

definition sort_by :: "('a \<Rightarrow> error + 'k::linorder) \<Rightarrow> 'a list \<Rightarrow> error + 'a list" where
  "sort_by kf xs =
     (case keyed kf xs of Inl e \<Rightarrow> Inl e | Inr kxs \<Rightarrow> Inr (map snd (sort_key fst kxs)))"

text \<open>\<^verbatim>\<open>max(int(v) for (v, _, _) in cuts)\<close>: \<^verbatim>\<open>ValueError\<close> on an empty registry and on a
  version that is not an integer.\<close>

fun versions_int :: "cut list \<Rightarrow> error + int list" where
  "versions_int [] = Inr []"
| "versions_int ((v, _, _) # cuts) =
     (case py_int v of
        None \<Rightarrow> Inl ValueError
      | Some n \<Rightarrow> (case versions_int cuts of Inl e \<Rightarrow> Inl e | Inr ns \<Rightarrow> Inr (n # ns)))"

definition max_version :: "cut list \<Rightarrow> error + int" where
  "max_version cuts =
     (case versions_int cuts of
        Inl e \<Rightarrow> Inl e
      | Inr [] \<Rightarrow> Inl ValueError
      | Inr (n # ns) \<Rightarrow> Inr (fold max ns n))"

text \<open>The loop over the sorted snapshots; \<open>cuts\<close> is the registry built so far.\<close>

fun snapshot_cuts :: "path list \<Rightarrow> cut list \<Rightarrow> error + cut list" where
  "snapshot_cuts [] cuts = Inr cuts"
| "snapshot_cuts (snapshot # snapshots) cuts =
     (let name = stem snapshot in
      if name \<noteq> ''latest'' then snapshot_cuts snapshots (cuts @ [(tl name, None, name)])
      else case max_version cuts of
        Inl e \<Rightarrow> Inl e
      | Inr m \<Rightarrow> snapshot_cuts snapshots (cuts @ [(str (1 + m), None, ''latest'')]))"

text \<open>The loop over the sorted features.\<close>

definition feature_version :: "nat \<Rightarrow> string" where
  "feature_version i = (if i > 0 then ''u64::MAX - '' @ str (int i) else ''u64::MAX'')"

definition feature_cuts :: "path list \<Rightarrow> cut list" where
  "feature_cuts features =
     map (\<lambda>(i, f). (feature_version i, Some (upper (stem f)), stem f)) (enumerate 0 features)"

definition discover_cuts :: "path list \<Rightarrow> error + cut list" where
  "discover_cuts dir =
     (let snapshots = filter (\<lambda>f. classify f = Snapshot) dir;
          features = filter (\<lambda>f. classify f = Feature) dir
      in case sort_by snapshot_key snapshots of
           Inl e \<Rightarrow> Inl e
         | Inr snapshots' \<Rightarrow>
             (case snapshot_cuts snapshots' [] of
                Inl e \<Rightarrow> Inl e
              | Inr cuts \<Rightarrow> Inr (cuts @ feature_cuts (sort_key feature_key features))))"

subsection \<open>Template substitution\<close>

text \<open>The pattern \<^verbatim>\<open>^(\s*)// \$([A-Z_]+)$\<close> under \<^verbatim>\<open>re.MULTILINE\<close>, tried at one position of
  the template where \<^verbatim>\<open>^\<close> holds; \<open>t\<close> is the text from that position on. \<^verbatim>\<open>\s*\<close> and
  \<^verbatim>\<open>[A-Z_]+\<close> are greedy, and giving back a character never helps: the character given
  back is a space where a slash is needed, or a letter where the end of the line is needed.
  So the match, if there is one, takes the longest run of each (lemma
  \<open>match_directive_iff\<close> below states the match without reference to greediness).
  \<^verbatim>\<open>\s\<close> includes the line feed, so group 1 can span several blank lines; \<^verbatim>\<open>$\<close> holds at
  the end of the text and before a line feed. The result is group 1, group 2 and the
  text after the match.\<close>

fun match_literal :: "string \<Rightarrow> string \<Rightarrow> string option" where
  "match_literal [] t = Some t"
| "match_literal (p # ps) [] = None"
| "match_literal (p # ps) (c # cs) = (if p = c then match_literal ps cs else None)"

definition at_eol :: "string \<Rightarrow> bool" where
  "at_eol t \<longleftrightarrow> (case t of [] \<Rightarrow> True | c # _ \<Rightarrow> c = CHR 0x0A)"

definition match_directive :: "string \<Rightarrow> (string \<times> string \<times> string) option" where
  "match_directive t =
     (case match_literal ''// $'' (dropWhile is_space t) of
        None \<Rightarrow> None
      | Some t2 \<Rightarrow>
          if takeWhile is_upper_us t2 \<noteq> [] \<and> at_eol (dropWhile is_upper_us t2)
          then Some (takeWhile is_space t, takeWhile is_upper_us t2, dropWhile is_upper_us t2)
          else None)"

text \<open>The replacement function \<^verbatim>\<open>substitute\<close> of \<^verbatim>\<open>generate_lib\<close>; \<open>spc\<close> and \<open>var\<close> are
  groups 1 and 2 of the match. \<^verbatim>\<open>feature or version\<close> is the version also when the
  constant name is the empty string.\<close>

definition feature_or_version :: "cut \<Rightarrow> string" where
  "feature_or_version c =
     (case c of (version, feat, _) \<Rightarrow>
        (case feat of None \<Rightarrow> version | Some f \<Rightarrow> if f = [] then version else f))"

definition executor_entry :: "string \<Rightarrow> cut \<Rightarrow> string" where
  "executor_entry spc c =
     (case c of (version, feat, cut_mod) \<Rightarrow>
        spc @ feature_or_version c @ '' => Arc::new('' @ cut_mod @ ''::Executor::new('' @ [CHR 0x0A]
        @ spc @ ''    protocol_config,'' @ [CHR 0x0A]
        @ spc @ ''    paranoid_type_checks,'' @ [CHR 0x0A]
        @ spc @ ''    silent,'' @ [CHR 0x0A]
        @ spc @ '')?),'' @ [CHR 0x0A])"

definition verifier_entry :: "string \<Rightarrow> cut \<Rightarrow> string" where
  "verifier_entry spc c =
     (case c of (version, feat, cut_mod) \<Rightarrow>
        spc @ feature_or_version c @ '' => Box::new('' @ cut_mod
        @ ''::Verifier::new(protocol_config, is_metered, metrics)),'')"

definition mod_entry :: "string \<Rightarrow> cut \<Rightarrow> string" where
  "mod_entry spc c = (case c of (_, _, cut_mod) \<Rightarrow> spc @ ''mod '' @ cut_mod @ '';'')"

definition const_entries :: "string \<Rightarrow> cut \<Rightarrow> string list" where
  "const_entries spc c =
     (case c of (version, feat, _) \<Rightarrow>
        (case feat of
           None \<Rightarrow> []
         | Some f \<Rightarrow> [spc @ ''pub const '' @ f @ '': u64 = '' @ version @ '';'']))"

definition substitute :: "cut list \<Rightarrow> string \<Rightarrow> string \<Rightarrow> error + string" where
  "substitute cuts spc var =
     (if var = ''GENERATED_MESSAGE'' then
        Inr (spc @ ''// DO NOT MODIFY, Generated by ./scripts/execution-layer'')
      else if var = ''MOD_CUTS'' then
        Inr (join [] (map (mod_entry spc) cuts))
      else if var = ''FEATURE_CONSTS'' then
        Inr (join [] (concat (map (const_entries spc) cuts)))
      else if var = ''EXECUTOR_CUTS'' then
        Inr (join [CHR 0x0A] (map (executor_entry spc) cuts))
      else if var = ''VERIFIER_CUTS'' then
        Inr (join [CHR 0x0A] (map (verifier_entry spc) cuts))
      else Inl (AssertionError var))"

text \<open>\<^verbatim>\<open>re.sub(pattern, repl, template, flags=re.MULTILINE)\<close>: the scan goes from left to right;
  \<open>bol\<close> says whether \<^verbatim>\<open>^\<close> holds at the current position (the start of the text, or just
  after a line feed). Where the pattern matches, the match is replaced by what \<open>repl\<close>
  returns and the scan goes on behind it (there \<^verbatim>\<open>^\<close> does not hold: the character before is
  the last of group 2); elsewhere one character is copied. An exception of \<open>repl\<close> leaves
  the scan.\<close>

function re_sub :: "(string \<Rightarrow> string \<Rightarrow> error + string) \<Rightarrow> bool \<Rightarrow> string \<Rightarrow> error + string" where
  "re_sub repl bol t =
     (case (if bol then match_directive t else None) of
        Some (spc, var, rest) \<Rightarrow>
          (case repl spc var of
             Inl e \<Rightarrow> Inl e
           | Inr s \<Rightarrow> (case re_sub repl False rest of Inl e \<Rightarrow> Inl e | Inr out \<Rightarrow> Inr (s @ out)))
      | None \<Rightarrow>
          (case t of
             [] \<Rightarrow> Inr []
           | c # cs \<Rightarrow>
               (case re_sub repl (c = CHR 0x0A) cs of Inl e \<Rightarrow> Inl e | Inr out \<Rightarrow> Inr (c # out))))"
  by pat_completeness auto

termination re_sub
proof (relation "measure (\<lambda>(repl, bol, t). length t)")
  show "wf (measure (\<lambda>(repl, bol, t). length t))" by simp
next
  fix repl :: "string \<Rightarrow> string \<Rightarrow> error + string" and bol t x2 x y x2a and xa ya :: string
  assume "(if bol then match_directive t else None) = Some x2" "(x, y) = x2" "(xa, ya) = y"
  then have "match_directive t = Some (x, xa, ya)"
    by (auto split: if_splits)
  then obtain t2 where lit: "match_literal ''// $'' (dropWhile is_space t) = Some t2"
    and rest: "ya = dropWhile is_upper_us t2"
    by (auto simp: match_directive_def split: option.splits if_splits)
  have len: "length u = length p + length r" if "match_literal p u = Some r" for p u r
    using that by (induction p u rule: match_literal.induct) (auto split: if_splits)
  have "length ya \<le> length t2"
    unfolding rest by (rule length_dropWhile_le)
  moreover have "length t2 < length (dropWhile is_space t)"
    using len [OF lit] by simp
  moreover have "length (dropWhile is_space t) \<le> length t"
    by (rule length_dropWhile_le)
  ultimately have "length ya < length t" by linarith
  then show "((repl, False, ya), (repl, bol, t)) \<in> measure (\<lambda>(repl, bol, t). length t)"
    by simp
next
  fix repl :: "string \<Rightarrow> string \<Rightarrow> error + string" and bol and t :: string and x21 x22
  assume "t = x21 # x22"
  then show "((repl, x21 = CHR 0x0A, x22), (repl, bol, t)) \<in> measure (\<lambda>(repl, bol, t). length t)"
    by simp
qed

declare re_sub.simps [simp del]

text \<open>\<^verbatim>\<open>generate_lib\<close>: the registry is built, the template is read, the output file is
  opened for writing (which empties it) and the result of the substitution is written.
  \<open>lib\<close> is the content of the output file before the call, \<open>None\<close> if there is none;
  the result is what the call returns or raises, and the content after the call.\<close>

definition generate_lib :: "path list \<Rightarrow> string \<Rightarrow> string option \<Rightarrow> (error + unit) \<times> string option" where
  "generate_lib dir template lib =
     (case discover_cuts dir of
        Inl e \<Rightarrow> (Inl e, lib)
      | Inr cuts \<Rightarrow>
          (case re_sub (substitute cuts) True template of
             Inl e \<Rightarrow> (Inl e, Some [])
           | Inr out \<Rightarrow> (Inr (), Some out)))"

section \<open>Notions used in the statements\<close>

text \<open>The components of a cut.\<close>

definition cut_version :: "cut \<Rightarrow> string" where
  "cut_version c = fst c"

definition cut_const :: "cut \<Rightarrow> string option" where
  "cut_const c = fst (snd c)"

definition cut_module :: "cut \<Rightarrow> string" where
  "cut_module c = snd (snd c)"

text \<open>A regular file of the listing with the given stem, and the name of the numbered
  snapshot \<open>n\<close>.\<close>

definition regular_file :: "string \<Rightarrow> path" where
  "regular_file s = \<lparr>stem = s, is_file = True\<rparr>"

definition snapshot_name :: "nat \<Rightarrow> string" where
  "snapshot_name n = CHR ''v'' # str (int n)"

text \<open>The number a version denotes in the generated Rust: a decimal literal, the constant
  \<^verbatim>\<open>u64::MAX\<close>, or \<^verbatim>\<open>u64::MAX\<close> minus a decimal literal. The value is the mathematical
  integer; it is the value of the 64-bit expression as long as it is not negative.\<close>

definition u64_MAX :: int where
  "u64_MAX = 2 ^ 64 - 1"

definition decimal :: "string \<Rightarrow> int option" where
  "decimal ds =
     (if ds \<noteq> [] \<and> list_all is_digit ds then Some (foldl (\<lambda>a c. a * 10 + digit_val c) 0 ds)
      else None)"

definition version_value :: "string \<Rightarrow> int option" where
  "version_value v =
     (if v = ''u64::MAX'' then Some u64_MAX
      else if take 11 v = ''u64::MAX - '' then map_option (\<lambda>n. u64_MAX - n) (decimal (drop 11 v))
      else decimal v)"

text \<open>The lines of a text, split at the line feeds (\<^verbatim>\<open>t.split("\n")\<close>).\<close>

fun split_lines :: "string \<Rightarrow> string list" where
  "split_lines [] = [[]]"
| "split_lines (c # cs) =
     (if c = CHR 0x0A then [] # split_lines cs
      else (case split_lines cs of [] \<Rightarrow> [[c]] | l # ls \<Rightarrow> (c # l) # ls))"

text \<open>A directive line: whitespace, then the marker \<^verbatim>\<open>// $\<close>, then an identifier of capital
  letters and underscores, and nothing else. \<open>directive_var\<close> gives the identifier.\<close>

definition directive_var :: "string \<Rightarrow> string option" where
  "directive_var l =
     (let r = dropWhile is_space l in
      if take 4 r = ''// $'' \<and> drop 4 r \<noteq> [] \<and> list_all is_upper_us (drop 4 r)
      then Some (drop 4 r) else None)"

definition directive_vars :: "string \<Rightarrow> string list" where
  "directive_vars t = List.map_filter directive_var (split_lines t)"

definition known_directives :: "string list" where
  "known_directives =
     [''GENERATED_MESSAGE'', ''MOD_CUTS'', ''FEATURE_CONSTS'', ''EXECUTOR_CUTS'', ''VERIFIER_CUTS'']"

text \<open>The directives ahead of a scan that stands at \<open>t\<close>: those of all lines of \<open>t\<close> when
  the scan stands at the start of a line, and those of the lines after the first otherwise
  (then the first line of \<open>t\<close> is the rest of a line the scan is already in).\<close>

definition directives_ahead :: "bool \<Rightarrow> string \<Rightarrow> string list" where
  "directives_ahead bol t =
     List.map_filter directive_var (if bol then split_lines t else tl (split_lines t))"

text \<open>The results of two pieces of work done one after the other: the first error, or
  the two texts joined.\<close>

definition then_append :: "error + string \<Rightarrow> error + string \<Rightarrow> error + string" where
  "then_append x y =
     (case x of
        Inl e \<Rightarrow> Inl e
      | Inr a \<Rightarrow> (case y of Inl e \<Rightarrow> Inl e | Inr b \<Rightarrow> Inr (a @ b)))"

text \<open>A text that ends with a line feed, where the line so ended is not blank.\<close>

definition ends_nonblank_line :: "string \<Rightarrow> bool" where
  "ends_nonblank_line t \<longleftrightarrow>
     t \<noteq> [] \<and> last t = CHR 0x0A
     \<and> \<not> list_all is_space (takeWhile (\<lambda>c. c \<noteq> CHR 0x0A) (rev (butlast t)))"

section \<open>Lemmas\<close>

subsection \<open>What the two name patterns accept\<close>

lemma feature_accepts_iff: "feature f = Inr f \<longleftrightarrow> (\<exists>c cs. f = c # cs \<and> is_lower c)"
  by (cases f) (simp_all add: feature_def re_match_feature_def)

lemma feature_rejects_iff:
  "feature f = Inl (ArgumentTypeError f) \<longleftrightarrow> \<not> (\<exists>c cs. f = c # cs \<and> is_lower c)"
  by (cases f) (simp_all add: feature_def re_match_feature_def)

lemma re_match_snapshot_iff:
  "re_match_snapshot s \<noteq> None \<longleftrightarrow>
     take 6 s = ''latest'' \<or> (\<exists>d ds. s = CHR ''v'' # d # ds \<and> is_digit d)"
proof (cases s)
  case Nil
  then show ?thesis by (simp add: re_match_snapshot_def)
next
  case (Cons c cs)
  have "takeWhile is_digit cs \<noteq> [] \<longleftrightarrow> (\<exists>d ds. cs = d # ds \<and> is_digit d)"
    by (cases cs) simp_all
  with Cons show ?thesis
    by (auto simp: re_match_snapshot_def)
qed

subsection \<open>Decimal numbers\<close>

lemma digit_char_is_digit: "d < 10 \<Longrightarrow> is_digit (digit_char d)"
  unfolding is_digit_def digit_char_def by (rule nth_mem) simp

lemma digit_val_digit_char: "d < 10 \<Longrightarrow> digit_val (digit_char d) = int d"
proof -
  assume "d < 10"
  then have "d \<in> {0, 1, 2, 3, 4, 5, 6, 7, 8, 9}" by auto
  then show ?thesis
    by (auto simp: digit_val_def digit_char_def)
qed

lemma str_nat_digits: "list_all is_digit (str_nat n) \<and> str_nat n \<noteq> []"
proof (induction n rule: str_nat.induct)
  case (1 n)
  show ?case
  proof (cases "n < 10")
    case True
    then show ?thesis by (simp add: str_nat.simps [of n] digit_char_is_digit)
  next
    case False
    with 1 show ?thesis by (simp add: str_nat.simps [of n] digit_char_is_digit)
  qed
qed

lemma digits_value_str_nat: "foldl (\<lambda>a c. a * 10 + digit_val c) 0 (str_nat n) = int n"
proof (induction n rule: str_nat.induct)
  case (1 n)
  show ?case
  proof (cases "n < 10")
    case True
    then show ?thesis by (simp add: str_nat.simps [of n] digit_val_digit_char)
  next
    case False
    with 1 have "foldl (\<lambda>a c. a * 10 + digit_val c) 0 (str_nat (n div 10)) = int (n div 10)"
      by simp
    with False show ?thesis
      by (simp add: str_nat.simps [of n] digit_val_digit_char zdiv_int zmod_int)
  qed
qed

lemma decimal_str_nat: "decimal (str_nat n) = Some (int n)"
  by (simp add: decimal_def str_nat_digits digits_value_str_nat)

lemma parse_digits_digits:
  "ds \<noteq> [] \<Longrightarrow> list_all is_digit ds
     \<Longrightarrow> parse_digits acc ds = Some (foldl (\<lambda>a c. a * 10 + digit_val c) acc ds)"
proof (induction acc ds rule: parse_digits.induct)
  case (3 acc c d cs)
  then have "d \<noteq> CHR ''_''" by (auto simp: is_digit_def)
  with 3 show ?case by simp
qed simp_all

lemma digit_not_int_space: "is_digit c \<Longrightarrow> \<not> is_int_space c"
  by (auto simp: is_digit_def is_int_space_def)

lemma strip_digits: "list_all is_digit ds \<Longrightarrow> strip ds = ds"
proof (cases ds rule: rev_cases)
  case Nil
  then show ?thesis by (simp add: strip_def)
next
  case (snoc ys y)
  assume d: "list_all is_digit ds"
  then have 1: "dropWhile is_int_space ds = ds"
    by (cases ds) (auto simp: digit_not_int_space)
  from d snoc have "\<not> is_int_space y" by (simp add: digit_not_int_space)
  then have "dropWhile is_int_space (rev ds) = rev ds"
    by (simp add: snoc)
  then show ?thesis by (simp add: strip_def 1)
qed

lemma py_int_str_nat: "py_int (str_nat n) = Some (int n)"
proof -
  obtain c cs where cs: "str_nat n = c # cs"
    using str_nat_digits [of n] by (cases "str_nat n") auto
  with str_nat_digits [of n] have "is_digit c" by simp
  then have c: "c \<noteq> CHR ''-''" "c \<noteq> CHR ''+''" by (auto simp: is_digit_def)
  have "strip (str_nat n) = c # cs"
    using str_nat_digits [of n] by (simp add: strip_digits cs)
  then have "py_int (str_nat n) = parse_digits 0 (str_nat n)"
    using c by (simp add: py_int_def cs)
  also have "\<dots> = Some (int n)"
    using str_nat_digits [of n] by (simp add: parse_digits_digits digits_value_str_nat)
  finally show ?thesis .
qed

lemma str_int: "str (int n) = str_nat n"
  by (simp add: str_def)

subsection \<open>Feature versions\<close>

lemma version_value_feature_version: "version_value (feature_version i) = Some (u64_MAX - int i)"
proof (cases "i = 0")
  case True
  then show ?thesis by (simp add: feature_version_def version_value_def)
next
  case False
  have "str_nat i \<noteq> []" using str_nat_digits [of i] by simp
  then have "''u64::MAX - '' @ str (int i) \<noteq> ''u64::MAX''" by (simp add: str_int)
  with False show ?thesis
    by (simp add: feature_version_def version_value_def decimal_str_nat str_int)
qed

lemma feature_version_inj: "feature_version i = feature_version j \<Longrightarrow> i = j"
proof -
  assume "feature_version i = feature_version j"
  then have "version_value (feature_version i) = version_value (feature_version j)"
    by (rule arg_cong)
  then show ?thesis by (simp add: version_value_feature_version)
qed

lemma feature_cuts_nth:
  "i < length fs \<Longrightarrow> feature_cuts fs ! i = (feature_version i, Some (upper (stem (fs ! i))), stem (fs ! i))"
  by (simp add: feature_cuts_def nth_enumerate_eq)

lemma length_feature_cuts [simp]: "length (feature_cuts fs) = length fs"
  by (simp add: feature_cuts_def)

lemma feature_cuts_const: "c \<in> set (feature_cuts fs) \<Longrightarrow> cut_const c \<noteq> None"
  by (auto simp: feature_cuts_def cut_const_def)

lemma map_module_feature_cuts: "map cut_module (feature_cuts fs) = map stem fs"
  by (rule nth_equalityI) (simp_all add: feature_cuts_nth cut_module_def)

lemma map_version_feature_cuts: "map cut_version (feature_cuts fs) = map feature_version [0..<length fs]"
  by (rule nth_equalityI) (simp_all add: feature_cuts_nth cut_version_def)

subsection \<open>The snapshot loop\<close>

lemma snapshot_cuts_append:
  "snapshot_cuts ss acc = Inr r
     \<Longrightarrow> \<exists>new. r = acc @ new \<and> (\<forall>c \<in> set new. cut_const c = None) \<and> map cut_module new = map stem ss"
proof (induction ss arbitrary: acc)
  case Nil
  then show ?case by simp
next
  case (Cons s ss)
  show ?case
  proof (cases "stem s = ''latest''")
    case True
    with Cons.prems obtain m where m: "max_version acc = Inr m"
      and r: "snapshot_cuts ss (acc @ [(str (1 + m), None, ''latest'')]) = Inr r"
      by (auto simp: Let_def split: sum.splits)
    from Cons.IH [OF r] True show ?thesis
      by (auto simp: cut_const_def cut_module_def)
  next
    case False
    with Cons.prems have r: "snapshot_cuts ss (acc @ [(tl (stem s), None, stem s)]) = Inr r"
      by (simp add: Let_def)
    from Cons.IH [OF r] show ?thesis
      by (auto simp: cut_const_def cut_module_def)
  qed
qed

lemma discover_cuts_structure:
  assumes "discover_cuts dir = Inr cuts"
  shows "\<exists>sc. cuts = sc @ feature_cuts (sort_key feature_key (filter (\<lambda>f. classify f = Feature) dir))
           \<and> (\<forall>c \<in> set sc. cut_const c = None)"
proof -
  from assms obtain ss sc where "snapshot_cuts ss [] = Inr sc"
    and cuts: "cuts = sc @ feature_cuts (sort_key feature_key (filter (\<lambda>f. classify f = Feature) dir))"
    by (auto simp: discover_cuts_def split: sum.splits)
  from snapshot_cuts_append [OF this(1)] have "\<forall>c \<in> set sc. cut_const c = None" by auto
  with cuts show ?thesis by blast
qed

lemma discover_cuts_features:
  assumes "discover_cuts dir = Inr cuts"
  shows "filter (\<lambda>c. cut_const c \<noteq> None) cuts
           = feature_cuts (sort_key feature_key (filter (\<lambda>f. classify f = Feature) dir))"
proof -
  from discover_cuts_structure [OF assms] obtain sc where
    cuts: "cuts = sc @ feature_cuts (sort_key feature_key (filter (\<lambda>f. classify f = Feature) dir))"
    and sc: "\<forall>c \<in> set sc. cut_const c = None" by blast
  have "filter (\<lambda>c. cut_const c \<noteq> None) sc = []"
    using sc by (simp add: filter_empty_conv)
  moreover have "filter (\<lambda>c. cut_const c \<noteq> None) (feature_cuts fs) = feature_cuts fs" for fs
    using feature_cuts_const [of _ fs] by (simp add: filter_id_conv)
  ultimately show ?thesis by (simp add: cuts)
qed

lemma sort_map_sort_key: "sort (map f xs) = map f (sort_key f xs)"
  by (rule properties_for_sort) simp_all

subsection \<open>Sorting\<close>

lemma sort_key_permuted:
  assumes "mset xs = mset ys" and "inj_on f (set xs)"
  shows "sort_key f xs = sort_key f ys"
proof -
  have set: "set ys = set xs"
    using assms(1) by (metis set_mset_mset)
  have "mset (map f (sort_key f ys)) = mset (map f xs)"
    using assms(1) by simp
  then have "sort (map f xs) = map f (sort_key f ys)"
    by (rule properties_for_sort) simp
  then have "map f (sort_key f xs) = map f (sort_key f ys)"
    by (simp add: sort_map_sort_key)
  moreover have "inj_on f (set (sort_key f xs) \<union> set (sort_key f ys))"
    using assms(2) by (simp add: set)
  ultimately show ?thesis
    by (simp add: inj_on_map_eq_map)
qed

lemma insort_key_map:
  "insort_key f (g x) (map g ys) = map g (insort_key (\<lambda>x. f (g x)) x ys)"
  by (induction ys) simp_all

lemma sort_key_map: "sort_key f (map g xs) = map g (sort_key (\<lambda>x. f (g x)) xs)"
  by (induction xs) (simp_all add: insort_key_map)

lemma keyed_Inr:
  "(\<And>x. x \<in> set xs \<Longrightarrow> kf x = Inr (k x)) \<Longrightarrow> keyed kf xs = Inr (map (\<lambda>x. (k x, x)) xs)"
  by (induction xs) simp_all

lemma keyed_Inl:
  assumes "x \<in> set xs" and "kf x = Inl e" and all: "\<And>y e'. kf y = Inl e' \<Longrightarrow> e' = e"
  shows "keyed kf xs = Inl e"
  using assms(1)
proof (induction xs)
  case Nil
  then show ?case by simp
next
  case (Cons a xs)
  show ?case
  proof (cases "kf a")
    case (Inl e')
    from all [OF Inl] have "e' = e" .
    with Inl show ?thesis by simp
  next
    case (Inr ka)
    with Cons.prems assms(2) have "x \<in> set xs" by auto
    then have "keyed kf xs = Inl e" by (rule Cons.IH)
    with Inr show ?thesis by simp
  qed
qed

lemma sort_by_Inr:
  assumes "\<And>x. x \<in> set xs \<Longrightarrow> kf x = Inr (k x)"
  shows "sort_by kf xs = Inr (sort_key k xs)"
proof -
  have "map snd (sort_key fst (map (\<lambda>x. (k x, x)) xs)) = sort_key k xs"
    by (simp add: sort_key_map comp_def)
  then show ?thesis
    by (simp add: sort_by_def keyed_Inr [of xs kf k, OF assms])
qed

lemma sort_by_Inl:
  assumes "x \<in> set xs" and "kf x = Inl e" and "\<And>y e'. kf y = Inl e' \<Longrightarrow> e' = e"
  shows "sort_by kf xs = Inl e"
proof -
  have "keyed kf xs = Inl e" using assms by (rule keyed_Inl)
  then show ?thesis by (simp add: sort_by_def)
qed

text \<open>The key of a snapshot whose key does not raise.\<close>

lemma snapshot_key_cases:
  "snapshot_key p = Inl ValueError \<or> (\<exists>k. snapshot_key p = Inr k)"
  by (auto simp: snapshot_key_def split: option.splits)

lemma sort_by_snapshot_key_permuted:
  assumes "mset xs = mset ys" and "inj_on snapshot_key (set xs)"
  shows "sort_by snapshot_key xs = sort_by snapshot_key ys"
proof (cases "\<exists>x \<in> set xs. snapshot_key x = Inl ValueError")
  case True
  then obtain x where x: "x \<in> set xs" "snapshot_key x = Inl ValueError" by blast
  have "x \<in> set ys" using x(1) assms(1) by (metis set_mset_mset)
  have only: "e' = ValueError" if "snapshot_key y = Inl e'" for y e'
    using that by (auto simp: snapshot_key_def split: if_splits option.splits)
  have "sort_by snapshot_key xs = Inl ValueError"
    using x only by (rule sort_by_Inl)
  moreover have "sort_by snapshot_key ys = Inl ValueError"
    using \<open>x \<in> set ys\<close> x(2) only by (rule sort_by_Inl)
  ultimately show ?thesis by simp
next
  case False
  define k where "k p = (case snapshot_key p of Inr k \<Rightarrow> k | Inl _ \<Rightarrow> Infinity)" for p
  have set: "set ys = set xs"
    using assms(1) by (metis set_mset_mset)
  have key: "snapshot_key x = Inr (k x)" if "x \<in> set xs" for x
    using that False snapshot_key_cases [of x] by (auto simp: k_def)
  have "inj_on k (set xs)"
  proof (rule inj_onI)
    fix x y assume "x \<in> set xs" "y \<in> set xs" "k x = k y"
    then have "snapshot_key x = snapshot_key y" by (simp add: key)
    with assms(2) \<open>x \<in> set xs\<close> \<open>y \<in> set xs\<close> show "x = y" by (simp add: inj_on_def)
  qed
  with assms(1) have "sort_key k xs = sort_key k ys" by (rule sort_key_permuted)
  moreover have "sort_by snapshot_key xs = Inr (sort_key k xs)"
    by (rule sort_by_Inr) (rule key)
  moreover have "sort_by snapshot_key ys = Inr (sort_key k ys)"
    by (rule sort_by_Inr) (simp add: key set)
  ultimately show ?thesis by simp
qed

lemma classified_is_file: "classify f = Feature \<Longrightarrow> is_file f"
  by (auto simp: classify_def split: if_splits)

lemma feature_key_inj: "inj_on feature_key (set (filter (\<lambda>f. classify f = Feature) dir))"
proof (rule inj_onI)
  fix x y :: path
  assume "x \<in> set (filter (\<lambda>f. classify f = Feature) dir)"
    "y \<in> set (filter (\<lambda>f. classify f = Feature) dir)" "feature_key x = feature_key y"
  then have "is_file x" "is_file y" "stem x = stem y"
    by (auto simp: classified_is_file feature_key_def)
  then show "x = y" by simp
qed

lemma discover_cuts_permuted:
  assumes "mset dir = mset dir'"
    and "inj_on snapshot_key (set (filter (\<lambda>f. classify f = Snapshot) dir))"
  shows "discover_cuts dir = discover_cuts dir'"
proof -
  have "mset (filter (\<lambda>f. classify f = Snapshot) dir) = mset (filter (\<lambda>f. classify f = Snapshot) dir')"
    using assms(1) by simp
  then have s: "sort_by snapshot_key (filter (\<lambda>f. classify f = Snapshot) dir)
      = sort_by snapshot_key (filter (\<lambda>f. classify f = Snapshot) dir')"
    using assms(2) by (rule sort_by_snapshot_key_permuted)
  have "mset (filter (\<lambda>f. classify f = Feature) dir) = mset (filter (\<lambda>f. classify f = Feature) dir')"
    using assms(1) by simp
  then have f: "sort_key feature_key (filter (\<lambda>f. classify f = Feature) dir)
      = sort_key feature_key (filter (\<lambda>f. classify f = Feature) dir')"
    using feature_key_inj by (rule sort_key_permuted)
  show ?thesis
    unfolding discover_cuts_def Let_def s f by (rule refl)
qed

subsection \<open>Numbered snapshots\<close>

lemma stem_regular_file [simp]: "stem (regular_file s) = s"
  by (simp add: regular_file_def)

lemma is_file_regular_file [simp]: "is_file (regular_file s)"
  by (simp add: regular_file_def)

lemma snapshot_name_not_latest: "snapshot_name i \<noteq> ''latest''"
  by (simp add: snapshot_name_def)

lemma snapshot_key_numbered: "snapshot_key (regular_file (snapshot_name i)) = Inr (Num (int i))"
  by (simp add: snapshot_key_def snapshot_name_def py_int_str_nat str_int)

lemma snapshot_key_latest: "snapshot_key (regular_file ''latest'') = Inr Infinity"
  by (simp add: snapshot_key_def)

lemma sorted_number_keys: "sorted ns \<Longrightarrow> sorted (map (\<lambda>i. Num (int i)) ns @ [Infinity])"
proof -
  assume "sorted ns"
  then have "sorted (map (\<lambda>i. Num (int i)) ns)"
    by (induction ns) auto
  moreover have "\<forall>x \<in> set (map (\<lambda>i. Num (int i)) ns). x \<le> Infinity"
    by auto
  ultimately show ?thesis by (simp add: sorted_append)
qed

lemma snapshot_cuts_numbered:
  "snapshot_cuts (map (\<lambda>i. regular_file (snapshot_name i)) ns @ rest) acc
     = snapshot_cuts rest (acc @ map (\<lambda>i. (str (int i), None, snapshot_name i)) ns)"
proof (induction ns arbitrary: acc)
  case Nil
  then show ?case by simp
next
  case (Cons n ns)
  have "tl (snapshot_name n) = str (int n)" by (simp add: snapshot_name_def)
  then show ?case
    by (simp add: snapshot_name_not_latest Cons.IH)
qed

lemma versions_int_numbered:
  "versions_int (map (\<lambda>i. (str (int i), None, snapshot_name i)) ns) = Inr (map int ns)"
  by (induction ns) (simp_all add: py_int_str_nat str_int)

lemma max_version_numbers:
  assumes "ns \<noteq> []"
  shows "max_version (map (\<lambda>i. (str (int i), None, snapshot_name i)) ns) = Inr (int (Max (set ns)))"
proof -
  from assms obtain a as where ns: "ns = a # as" by (cases ns) auto
  have "fold max (map int as) (int a) = Max (set (int a # map int as))"
    by (rule Max.set_eq_fold [symmetric])
  also have "\<dots> = Max (int ` set ns)" by (simp add: ns)
  also have "\<dots> = int (Max (set ns))"
    using assms by (intro mono_Max_commute [symmetric] monoI) simp_all
  finally have f: "fold max (map int as) (int a) = int (Max (set ns))" .
  have v: "versions_int (map (\<lambda>i. (str (int i), None, snapshot_name i)) ns) = Inr (int a # map int as)"
    by (subst versions_int_numbered) (simp add: ns)
  show ?thesis
    unfolding max_version_def v by (simp add: f)
qed

lemma snapshot_cuts_numbers:
  assumes "ns \<noteq> []"
  shows "snapshot_cuts (map (\<lambda>i. regular_file (snapshot_name i)) ns @ [regular_file ''latest'']) []
     = Inr (map (\<lambda>i. (str (int i), None, snapshot_name i)) ns
            @ [(str (1 + int (Max (set ns))), None, ''latest'')])"
  by (simp add: snapshot_cuts_numbered max_version_numbers [OF assms])

lemma sort_by_numbers:
  assumes "distinct ns"
    and "mset snapshots = mset (map (\<lambda>i. regular_file (snapshot_name i)) ns @ [regular_file ''latest''])"
  shows "sort_by snapshot_key snapshots
     = Inr (map (\<lambda>i. regular_file (snapshot_name i)) (sort ns) @ [regular_file ''latest''])"
proof -
  let ?key = "\<lambda>p. if stem p = ''latest'' then Infinity else Num (the (py_int (tl (stem p))))"
  let ?canon = "map (\<lambda>i. regular_file (snapshot_name i)) (sort ns) @ [regular_file ''latest'']"
  have m: "mset ?canon = mset snapshots"
    by (simp add: assms(2))
  have keys: "map snapshot_key ?canon = map Inr (map (\<lambda>i. Num (int i)) (sort ns) @ [Infinity])"
    by (simp add: snapshot_key_numbered snapshot_key_latest)
  have "distinct (map (\<lambda>i. Num (int i)) (sort ns) @ [Infinity])"
    using assms(1) by (auto simp: distinct_map inj_on_def)
  then have "distinct (map snapshot_key ?canon)"
    unfolding keys by (simp only: distinct_map) (simp add: inj_on_def)
  then have inj: "inj_on snapshot_key (set ?canon)"
    by (simp only: distinct_map)
  have "sort_by snapshot_key snapshots = sort_by snapshot_key ?canon"
    using m inj by (rule sort_by_snapshot_key_permuted [symmetric])
  also have "\<dots> = Inr (sort_key ?key ?canon)"
    by (rule sort_by_Inr) (auto simp: snapshot_key_def snapshot_name_def py_int_str_nat str_int)
  also have "sort_key ?key ?canon = ?canon"
  proof (rule sort_key_id_if_sorted)
    have "map ?key ?canon = map (\<lambda>i. Num (int i)) (sort ns) @ [Infinity]"
      by (simp add: snapshot_name_def py_int_str_nat str_int)
    then show "sorted (map ?key ?canon)"
      by (simp only: sorted_number_keys [OF sorted_sort])
  qed
  finally show ?thesis .
qed

lemma sort_initial_segment:
  assumes "distinct ns" and "set ns = {0..<k}"
  shows "sort ns = [0..<k]"
proof (rule sorted_distinct_set_unique)
  show "set (sort ns) = set [0..<k]" using assms(2) by simp
qed (simp_all add: assms(1))

subsection \<open>The directive pattern\<close>

lemma at_eol_simps [simp]: "at_eol [] = True" "at_eol (c # cs) = (c = CHR 0x0A)"
  by (simp_all add: at_eol_def)

lemma LF_is_space [simp]: "is_space (CHR 0x0A)"
  by (simp add: is_space_def)

lemma LF_not_upper_us [simp]: "\<not> is_upper_us (CHR 0x0A)"
  by (simp add: is_upper_us_def is_upper_def)

lemma slash_not_space [simp]: "\<not> is_space (CHR ''/'')"
  by (simp add: is_space_def)

lemma match_literal_iff: "match_literal p t = Some r \<longleftrightarrow> t = p @ r"
  by (induction p t rule: match_literal.induct) auto

lemma takeWhile_upper_us_eol:
  "list_all is_upper_us var \<Longrightarrow> at_eol rest \<Longrightarrow> takeWhile is_upper_us (var @ rest) = var"
  by (cases rest) (auto simp: list_all_iff)

lemma dropWhile_upper_us_eol:
  "list_all is_upper_us var \<Longrightarrow> at_eol rest \<Longrightarrow> dropWhile is_upper_us (var @ rest) = rest"
  by (cases rest) (auto simp: list_all_iff)

text \<open>What the pattern matches, stated without reference to greediness: the text is
  whitespace, the marker, a non-empty identifier, and then the end of a line.\<close>

lemma match_directive_iff:
  "match_directive t = Some (spc, var, rest) \<longleftrightarrow>
     t = spc @ ''// $'' @ var @ rest \<and> list_all is_space spc
     \<and> var \<noteq> [] \<and> list_all is_upper_us var \<and> at_eol rest"
proof
  assume "match_directive t = Some (spc, var, rest)"
  then obtain t2 where lit: "match_literal ''// $'' (dropWhile is_space t) = Some t2"
    and spc: "spc = takeWhile is_space t" and var: "var = takeWhile is_upper_us t2"
    and rest: "rest = dropWhile is_upper_us t2" and ne: "var \<noteq> []" and eol: "at_eol rest"
    by (auto simp: match_directive_def split: option.splits if_splits)
  from lit have dw: "dropWhile is_space t = ''// $'' @ t2"
    by (simp only: match_literal_iff)
  have "t = spc @ ''// $'' @ t2"
    unfolding spc using takeWhile_dropWhile_id [of is_space t, unfolded dw] by (rule sym)
  moreover have "t2 = var @ rest"
    unfolding var rest by simp
  moreover have "list_all is_space spc"
    unfolding spc by (auto simp: list_all_iff dest: set_takeWhileD)
  moreover have "list_all is_upper_us var"
    unfolding var by (auto simp: list_all_iff dest: set_takeWhileD)
  ultimately show "t = spc @ ''// $'' @ var @ rest \<and> list_all is_space spc
     \<and> var \<noteq> [] \<and> list_all is_upper_us var \<and> at_eol rest"
    using ne eol by simp
next
  assume a: "t = spc @ ''// $'' @ var @ rest \<and> list_all is_space spc
     \<and> var \<noteq> [] \<and> list_all is_upper_us var \<and> at_eol rest"
  then have d: "dropWhile is_space t = ''// $'' @ var @ rest"
    by (simp add: list_all_iff)
  from a have tk: "takeWhile is_space t = spc"
    by (simp add: list_all_iff)
  have lit: "match_literal ''// $'' (''// $'' @ var @ rest) = Some (var @ rest)"
    by (simp only: match_literal_iff)
  from a have tv: "takeWhile is_upper_us (var @ rest) = var"
    and dv: "dropWhile is_upper_us (var @ rest) = rest"
    by (simp_all add: takeWhile_upper_us_eol dropWhile_upper_us_eol)
  from a have "var \<noteq> []" "at_eol rest" by simp_all
  then show "match_directive t = Some (spc, var, rest)"
    unfolding match_directive_def d tk lit option.case tv dv by simp
qed

lemma match_directive_Some:
  "match_directive t = Some m \<Longrightarrow>
     \<exists>spc var rest. m = (spc, var, rest) \<and> t = spc @ ''// $'' @ var @ rest \<and> list_all is_space spc
       \<and> var \<noteq> [] \<and> list_all is_upper_us var \<and> at_eol rest"
  by (cases m) (simp add: match_directive_iff del: append.simps)

subsection \<open>Lines\<close>

lemma split_lines_nonempty [simp]: "split_lines t \<noteq> []"
  by (cases t) (simp_all split: list.splits)

lemma split_lines_Cons [simp]:
  "split_lines (c # cs) =
     (if c = CHR 0x0A then [] # split_lines cs
      else (c # hd (split_lines cs)) # tl (split_lines cs))"
  by (cases "split_lines cs") simp_all

declare split_lines.simps(2) [simp del]

lemma split_lines_append_line:
  "CHR 0x0A \<notin> set a \<Longrightarrow> split_lines (a @ b) = (a @ hd (split_lines b)) # tl (split_lines b)"
  by (induction a) auto

lemma split_lines_LF [simp]: "split_lines (CHR 0x0A # cs) = [] # split_lines cs"
  by simp

lemma split_lines_blank:
  "list_all is_space s \<Longrightarrow> l \<in> set (split_lines s) \<Longrightarrow> list_all is_space l"
proof (induction s arbitrary: l)
  case Nil
  then show ?case by simp
next
  case (Cons c cs)
  from Cons.prems(1) have c: "is_space c" and cs: "list_all is_space cs" by simp_all
  have hd: "list_all is_space (hd (split_lines cs))"
    using cs by (rule Cons.IH) simp
  have tl: "list_all is_space l'" if "l' \<in> set (tl (split_lines cs))" for l'
  proof -
    from that have "l' \<in> set (split_lines cs)" by (rule list.set_sel(2) [rotated]) simp
    with cs show ?thesis by (rule Cons.IH)
  qed
  show ?case
  proof (cases "c = CHR 0x0A")
    case True
    with Cons.prems(2) have "l = [] \<or> l \<in> set (split_lines cs)" by simp
    then show ?thesis using cs Cons.IH by auto
  next
    case False
    with Cons.prems(2) have "l = c # hd (split_lines cs) \<or> l \<in> set (tl (split_lines cs))"
      by simp
    then show ?thesis using c hd tl by auto
  qed
qed

subsection \<open>Directive lines\<close>

lemma directive_var_iff:
  "directive_var l = Some v \<longleftrightarrow>
     (\<exists>ws. l = ws @ ''// $'' @ v \<and> list_all is_space ws \<and> v \<noteq> [] \<and> list_all is_upper_us v)"
proof
  assume "directive_var l = Some v"
  then have tk: "take 4 (dropWhile is_space l) = ''// $''" and v: "v = drop 4 (dropWhile is_space l)"
    and ne: "v \<noteq> []" and up: "list_all is_upper_us v"
    by (auto simp: directive_var_def Let_def split: if_splits)
  have "dropWhile is_space l = take 4 (dropWhile is_space l) @ drop 4 (dropWhile is_space l)"
    by simp
  then have dw: "dropWhile is_space l = ''// $'' @ v"
    unfolding tk v [symmetric] .
  have "l = takeWhile is_space l @ ''// $'' @ v"
    using takeWhile_dropWhile_id [of is_space l, unfolded dw] by (rule sym)
  moreover have "list_all is_space (takeWhile is_space l)"
    by (auto simp: list_all_iff dest: set_takeWhileD)
  ultimately show "\<exists>ws. l = ws @ ''// $'' @ v \<and> list_all is_space ws \<and> v \<noteq> [] \<and> list_all is_upper_us v"
    using ne up by blast
next
  assume "\<exists>ws. l = ws @ ''// $'' @ v \<and> list_all is_space ws \<and> v \<noteq> [] \<and> list_all is_upper_us v"
  then obtain ws where l: "l = ws @ ''// $'' @ v" and ws: "list_all is_space ws"
    and ne: "v \<noteq> []" and up: "list_all is_upper_us v" by blast
  from ws have dw: "dropWhile is_space l = ''// $'' @ v"
    unfolding l by (simp add: list_all_iff)
  from ne up show "directive_var l = Some v"
    unfolding directive_var_def Let_def dw by simp
qed

lemma directive_var_blank: "list_all is_space l \<Longrightarrow> directive_var l = None"
proof -
  assume "list_all is_space l"
  then have dw: "dropWhile is_space l = []" by (simp add: list_all_iff)
  show ?thesis unfolding directive_var_def Let_def dw by simp
qed

lemma directive_var_after_blank:
  "list_all is_space ws \<Longrightarrow> directive_var (ws @ l) = directive_var l"
proof -
  assume "list_all is_space ws"
  then have dw: "dropWhile is_space (ws @ l) = dropWhile is_space l"
    by (simp add: list_all_iff)
  show ?thesis unfolding directive_var_def Let_def dw by (rule refl)
qed

subsection \<open>The steps of the scan\<close>

lemma match_directive_Nil [simp]: "match_directive [] = None"
  by (simp add: match_directive_def)

lemma match_directive_length:
  "match_directive t = Some (spc, var, rest) \<Longrightarrow> length rest < length t"
  by (simp add: match_directive_iff)

lemma re_sub_Nil [simp]: "re_sub repl bol [] = Inr []"
  by (simp add: re_sub.simps [of repl bol "[]"])

lemma re_sub_match:
  "match_directive t = Some (spc, var, rest) \<Longrightarrow>
     re_sub repl True t =
       (case repl spc var of
          Inl e \<Rightarrow> Inl e
        | Inr s \<Rightarrow> (case re_sub repl False rest of Inl e \<Rightarrow> Inl e | Inr out \<Rightarrow> Inr (s @ out)))"
  by (simp add: re_sub.simps [of repl True t])

lemma re_sub_copy:
  "(if bol then match_directive (c # cs) else None) = None \<Longrightarrow>
     re_sub repl bol (c # cs) =
       (case re_sub repl (c = CHR 0x0A) cs of Inl e \<Rightarrow> Inl e | Inr out \<Rightarrow> Inr (c # out))"
  by (simp add: re_sub.simps [of repl bol "c # cs"])

lemma scan_induct [case_names Nil Copy Match]:
  assumes nil: "\<And>bol. P bol []"
    and copy: "\<And>bol c cs. (if bol then match_directive (c # cs) else None) = None \<Longrightarrow> P (c = CHR 0x0A) cs \<Longrightarrow> P bol (c # cs)"
    and match: "\<And>t spc var rest. match_directive t = Some (spc, var, rest) \<Longrightarrow> P False rest \<Longrightarrow> P True t"
  shows "P bol t"
proof (induction t arbitrary: bol rule: length_induct)
  case (1 t)
  show ?case
  proof (cases "(if bol then match_directive t else None)")
    case (Some m)
    then obtain spc var rest where bol: "bol" and m: "match_directive t = Some (spc, var, rest)"
      by (cases m) (auto split: if_splits)
    from match_directive_length [OF m] 1 have "P False rest" by blast
    with m have "P True t" by (rule match)
    with bol show ?thesis by simp
  next
    case None
    show ?thesis
    proof (cases t)
      case Nil
      then show ?thesis by (simp add: nil)
    next
      case (Cons c cs)
      with 1 have "P (c = CHR 0x0A) cs" by simp
      with None show ?thesis unfolding Cons by (rule copy)
    qed
  qed
qed

subsection \<open>The scan and the lines of the template\<close>

lemma split_lines_first_line: "\<exists>r. t = hd (split_lines t) @ r \<and> at_eol r"
proof (induction t)
  case Nil
  then show ?case by simp
next
  case (Cons c cs)
  show ?case
  proof (cases "c = CHR 0x0A")
    case True
    then have "c # cs = hd (split_lines (c # cs)) @ (c # cs) \<and> at_eol (c # cs)" by simp
    then show ?thesis ..
  next
    case False
    from Cons obtain r where "cs = hd (split_lines cs) @ r" "at_eol r" by blast
    with False have "c # cs = hd (split_lines (c # cs)) @ r \<and> at_eol r" by simp
    then show ?thesis ..
  qed
qed

lemma directive_line_matches:
  assumes "directive_var (hd (split_lines t)) = Some v"
  shows "\<exists>spc rest. match_directive t = Some (spc, v, rest)"
proof -
  from split_lines_first_line obtain r where t: "t = hd (split_lines t) @ r" and r: "at_eol r"
    by blast
  from assms obtain ws where l: "hd (split_lines t) = ws @ ''// $'' @ v" and ws: "list_all is_space ws"
    and v: "v \<noteq> []" "list_all is_upper_us v"
    unfolding directive_var_iff by blast
  have "t = ws @ ''// $'' @ v @ r"
    by (subst t, subst l) simp
  with ws v r have "match_directive t = Some (ws, v, r)"
    unfolding match_directive_iff by blast
  then show ?thesis by blast
qed

lemma split_lines_append:
  "split_lines (a @ b)
     = butlast (split_lines a) @ (last (split_lines a) @ hd (split_lines b)) # tl (split_lines b)"
proof (induction a)
  case Nil
  then show ?case by simp
next
  case (Cons c a)
  obtain x xs where sl: "split_lines a = x # xs" by (cases "split_lines a") simp_all
  show ?case
  proof (cases "c = CHR 0x0A")
    case True
    then show ?thesis by (simp add: Cons.IH)
  next
    case False
    show ?thesis
    proof (cases xs)
      case Nil
      with False sl show ?thesis by (simp add: Cons.IH)
    next
      case (Cons y ys)
      with False sl show ?thesis by (simp add: Cons.IH)
    qed
  qed
qed

lemma map_filter_append: "List.map_filter f (xs @ ys) = List.map_filter f xs @ List.map_filter f ys"
  by (simp add: List.map_filter_def)

lemma map_filter_all_None: "(\<And>x. x \<in> set xs \<Longrightarrow> f x = None) \<Longrightarrow> List.map_filter f xs = []"
  by (simp add: List.map_filter_def filter_empty_conv)

lemma directives_ahead_Nil [simp]: "directives_ahead bol [] = []"
  by (simp add: directives_ahead_def directive_var_blank map_filter_simps)

lemma directives_ahead_match:
  assumes "match_directive t = Some (spc, var, rest)"
  shows "directives_ahead True t = var # directives_ahead False rest"
proof -
  let ?m = "''// $'' @ var"
  from assms have t: "t = spc @ ?m @ rest" and spc: "list_all is_space spc"
    and var: "var \<noteq> []" "list_all is_upper_us var" and rest: "at_eol rest"
    by (simp_all add: match_directive_iff)
  have noLF: "CHR 0x0A \<notin> set ?m"
    using var(2) by (auto simp: list_all_iff)
  have "hd (split_lines rest) = []"
    using rest by (cases rest) simp_all
  then have "split_lines (?m @ rest) = ?m # tl (split_lines rest)"
    using split_lines_append_line [OF noLF, of rest] by simp
  then have lines: "split_lines t
      = butlast (split_lines spc) @ (last (split_lines spc) @ ?m) # tl (split_lines rest)"
    by (subst t, subst split_lines_append) simp
  have blank: "list_all is_space l" if "l \<in> set (split_lines spc)" for l
    using spc that by (rule split_lines_blank)
  have "directive_var l = None" if "l \<in> set (butlast (split_lines spc))" for l
    using that blank directive_var_blank by (blast dest: in_set_butlastD)
  then have 1: "List.map_filter directive_var (butlast (split_lines spc)) = []"
    by (rule map_filter_all_None)
  have "list_all is_space (last (split_lines spc))"
    by (rule blank) simp
  then have "directive_var (last (split_lines spc) @ ?m) = directive_var ?m"
    by (rule directive_var_after_blank)
  also have "\<dots> = Some var"
    unfolding directive_var_iff using var by (intro exI [of _ "[]"]) simp
  finally have 2: "directive_var (last (split_lines spc) @ ?m) = Some var" .
  show ?thesis
    unfolding directives_ahead_def lines
    by (simp add: map_filter_append 1 map_filter_simps 2 del: append.simps)
qed

lemma directives_ahead_copy:
  assumes "(if bol then match_directive (c # cs) else None) = None"
  shows "directives_ahead bol (c # cs) = directives_ahead (c = CHR 0x0A) cs"
proof (cases "c = CHR 0x0A")
  case True
  then show ?thesis
    by (simp add: directives_ahead_def map_filter_simps directive_var_blank)
next
  case False
  show ?thesis
  proof (cases bol)
    case True
    with assms have none: "match_directive (c # cs) = None" by simp
    have "directive_var (hd (split_lines (c # cs))) = None"
    proof (cases "directive_var (hd (split_lines (c # cs)))")
      case None
      then show ?thesis .
    next
      case (Some v)
      from directive_line_matches [OF Some] none show ?thesis by simp
    qed
    with False True show ?thesis
      by (simp add: directives_ahead_def map_filter_simps)
  next
    case bolF: False
    with False show ?thesis
      by (simp add: directives_ahead_def)
  qed
qed

text \<open>Where no directive is ahead, the scan copies the text.\<close>

lemma re_sub_verbatim: "directives_ahead bol t = [] \<Longrightarrow> re_sub repl bol t = Inr t"
proof (induction bol t rule: scan_induct)
  case (Nil bol)
  then show ?case by simp
next
  case (Copy bol c cs)
  then show ?case by (simp add: re_sub_copy directives_ahead_copy)
next
  case (Match t spc var rest)
  then show ?case by (simp add: directives_ahead_match)
qed

subsection \<open>Known and unknown directives\<close>

lemma substitute_unknown:
  "var \<notin> set known_directives \<Longrightarrow> substitute cuts spc var = Inl (AssertionError var)"
  by (simp add: substitute_def known_directives_def)

lemma substitute_known:
  "var \<in> set known_directives \<Longrightarrow> \<exists>s. substitute cuts spc var = Inr s"
  by (auto simp: substitute_def known_directives_def)

lemma re_sub_substitute:
  "(case find (\<lambda>v. v \<notin> set known_directives) (directives_ahead bol t) of
      Some v \<Rightarrow> re_sub (substitute cuts) bol t = Inl (AssertionError v)
    | None \<Rightarrow> (\<exists>out. re_sub (substitute cuts) bol t = Inr out))"
proof (induction bol t rule: scan_induct)
  case (Nil bol)
  then show ?case by simp
next
  case (Copy bol c cs)
  then show ?case
    by (auto simp: re_sub_copy directives_ahead_copy split: option.splits)
next
  case (Match t spc var rest)
  show ?case
  proof (cases "var \<in> set known_directives")
    case True
    then obtain s where "substitute cuts spc var = Inr s"
      using substitute_known by blast
    with Match True show ?thesis
      by (auto simp: re_sub_match directives_ahead_match split: option.splits)
  next
    case False
    with Match show ?thesis
      by (simp add: re_sub_match directives_ahead_match substitute_unknown)
  qed
qed

lemma directives_ahead_True: "directives_ahead True t = directive_vars t"
  by (simp add: directives_ahead_def directive_vars_def)

subsection \<open>Scanning a text in two parts\<close>

lemma then_append_simps [simp]:
  "then_append (Inl e) y = Inl e"
  "then_append (Inr a) (Inl e) = Inl e"
  "then_append (Inr a) (Inr b) = Inr (a @ b)"
  by (simp_all add: then_append_def)

lemma then_append_Nil [simp]: "then_append (Inr []) y = y"
  by (cases y) simp_all

lemma then_append_Nil2 [simp]: "then_append x (Inr []) = x"
  by (cases x) simp_all

lemma then_append_assoc: "then_append (then_append x y) z = then_append x (then_append y z)"
  by (cases x; cases y; cases z) simp_all

lemma re_sub_match_then:
  "match_directive t = Some (spc, var, rest) \<Longrightarrow>
     re_sub repl True t = then_append (repl spc var) (re_sub repl False rest)"
  by (simp add: re_sub_match then_append_def)

lemma re_sub_copy_then:
  "(if bol then match_directive (c # cs) else None) = None \<Longrightarrow>
     re_sub repl bol (c # cs) = then_append (Inr [c]) (re_sub repl (c = CHR 0x0A) cs)"
  by (simp add: re_sub_copy then_append_def split: sum.splits)

lemma match_directive_last:
  assumes "match_directive t = Some (spc, var, [])"
  shows "last t \<noteq> CHR 0x0A"
proof -
  from assms have t: "t = spc @ ''// $'' @ var" and var: "var \<noteq> []" "list_all is_upper_us var"
    by (simp_all add: match_directive_iff)
  from var have "is_upper_us (last var)" by (simp add: list_all_iff)
  moreover from var(1) have "last t = last var" by (simp add: t)
  ultimately show ?thesis by auto
qed

text \<open>The scan of \<open>u @ X\<close> is the scan of \<open>u\<close> followed by the scan of \<open>X\<close>, when at every
  start of a line in \<open>u\<close> the pattern matches in \<open>u @ X\<close> as it does in \<open>u\<close> alone.\<close>

lemma re_sub_append:
  assumes "bol \<Longrightarrow> u \<noteq> [] \<Longrightarrow>
      match_directive (u @ X) = map_option (\<lambda>(s, v, r). (s, v, r @ X)) (match_directive u)"
    and "\<And>a b. u = a @ CHR 0x0A # b \<Longrightarrow> b \<noteq> [] \<Longrightarrow>
      match_directive (b @ X) = map_option (\<lambda>(s, v, r). (s, v, r @ X)) (match_directive b)"
  shows "re_sub repl bol (u @ X)
    = then_append (re_sub repl bol u) (re_sub repl (if u = [] then bol else last u = CHR 0x0A) X)"
  using assms
proof (induction bol u rule: scan_induct)
  case (Nil bol)
  show ?case by simp
next
  case (Copy bol c cs)
  have none: "(if bol then match_directive (c # (cs @ X)) else None) = None"
  proof (cases bol)
    case True
    with Copy.hyps have "match_directive (c # cs) = None" by simp
    with Copy.prems(1) [OF True] show ?thesis by simp
  next
    case False
    then show ?thesis by simp
  qed
  have inner: "match_directive (b @ X) = map_option (\<lambda>(s, v, r). (s, v, r @ X)) (match_directive b)"
    if "cs = a @ CHR 0x0A # b" "b \<noteq> []" for a b
  proof -
    from that(1) have "c # cs = (c # a) @ CHR 0x0A # b" by simp
    then show ?thesis using that(2) by (rule Copy.prems(2))
  qed
  have start: "match_directive (cs @ X) = map_option (\<lambda>(s, v, r). (s, v, r @ X)) (match_directive cs)"
    if "c = CHR 0x0A" "cs \<noteq> []"
  proof -
    from that(1) have "c # cs = [] @ CHR 0x0A # cs" by simp
    then show ?thesis using that(2) by (rule Copy.prems(2))
  qed
  have IH: "re_sub repl (c = CHR 0x0A) (cs @ X)
      = then_append (re_sub repl (c = CHR 0x0A) cs)
          (re_sub repl (if cs = [] then c = CHR 0x0A else last cs = CHR 0x0A) X)"
    using start inner by (rule Copy.IH)
  have "re_sub repl bol (c # (cs @ X)) = then_append (Inr [c]) (re_sub repl (c = CHR 0x0A) (cs @ X))"
    using none by (rule re_sub_copy_then)
  also have "\<dots> = then_append (then_append (Inr [c]) (re_sub repl (c = CHR 0x0A) cs))
      (re_sub repl (if cs = [] then c = CHR 0x0A else last cs = CHR 0x0A) X)"
    unfolding IH by (simp only: then_append_assoc)
  also have "then_append (Inr [c]) (re_sub repl (c = CHR 0x0A) cs) = re_sub repl bol (c # cs)"
    using Copy.hyps by (rule re_sub_copy_then [symmetric])
  also have "(if cs = [] then c = CHR 0x0A else last cs = CHR 0x0A) = (last (c # cs) = CHR 0x0A)"
    by simp
  finally show ?case by simp
next
  case (Match t spc var rest)
  from Match.hyps have t: "t = spc @ ''// $'' @ var @ rest"
    by (simp add: match_directive_iff)
  then have ne: "t \<noteq> []" by simp
  from Match.prems(1) [OF TrueI ne] Match.hyps
  have m: "match_directive (t @ X) = Some (spc, var, rest @ X)" by simp
  have inner: "match_directive (b @ X) = map_option (\<lambda>(s, v, r). (s, v, r @ X)) (match_directive b)"
    if "rest = a @ CHR 0x0A # b" "b \<noteq> []" for a b
  proof -
    from that(1) have "t = (spc @ ''// $'' @ var @ a) @ CHR 0x0A # b" by (simp add: t)
    then show ?thesis using that(2) by (rule Match.prems(2))
  qed
  have IH: "re_sub repl False (rest @ X)
      = then_append (re_sub repl False rest)
          (re_sub repl (if rest = [] then False else last rest = CHR 0x0A) X)"
    using _ inner by (rule Match.IH) simp
  have last: "(if rest = [] then False else last rest = CHR 0x0A) = (last t = CHR 0x0A)"
  proof (cases "rest = []")
    case True
    with Match.hyps show ?thesis by (simp add: match_directive_last)
  next
    case False
    then show ?thesis by (simp add: t)
  qed
  have "re_sub repl True (t @ X) = then_append (repl spc var) (re_sub repl False (rest @ X))"
    using m by (rule re_sub_match_then)
  also have "\<dots> = then_append (then_append (repl spc var) (re_sub repl False rest))
      (re_sub repl (last t = CHR 0x0A) X)"
    unfolding IH last by (simp only: then_append_assoc)
  also have "then_append (repl spc var) (re_sub repl False rest) = re_sub repl True t"
    using Match.hyps by (rule re_sub_match_then [symmetric])
  finally show ?case using ne by simp
qed

subsection \<open>Where a match is decided\<close>

lemma match_literal_append_line:
  assumes "d \<noteq> []" and "last d = CHR 0x0A"
  shows "match_literal ''// $'' (d @ X) = map_option (\<lambda>r. r @ X) (match_literal ''// $'' d)"
proof (cases "match_literal ''// $'' d")
  case (Some r)
  then have "d = ''// $'' @ r" by (simp only: match_literal_iff)
  then have "d @ X = ''// $'' @ (r @ X)" by simp
  then have "match_literal ''// $'' (d @ X) = Some (r @ X)" by (simp only: match_literal_iff)
  with Some show ?thesis by simp
next
  case None
  have "match_literal ''// $'' (d @ X) = None"
  proof (cases "match_literal ''// $'' (d @ X)")
    case None
    then show ?thesis .
  next
    case (Some r')
    then have "d @ X = ''// $'' @ r'" by (simp only: match_literal_iff)
    then obtain us where "d = ''// $'' @ us \<or> d @ us = ''// $''"
      by (auto simp only: append_eq_append_conv2)
    then show ?thesis
    proof
      assume "d = ''// $'' @ us"
      then have "match_literal ''// $'' d = Some us" by (simp only: match_literal_iff)
      with None show ?thesis by simp
    next
      assume "d @ us = ''// $''"
      then have "set d \<subseteq> set ''// $''" by (metis set_append Un_upper1)
      moreover from assms have "CHR 0x0A \<in> set d" by (metis last_in_set)
      ultimately show ?thesis by auto
    qed
  qed
  with None show ?thesis by simp
qed

text \<open>In a text that ends with a line feed and is not blank, the match at its start does not
  depend on what follows the text.\<close>

lemma match_directive_append_line:
  assumes "\<exists>x \<in> set u. \<not> is_space x" and "last u = CHR 0x0A"
  shows "match_directive (u @ X) = map_option (\<lambda>(s, v, r). (s, v, r @ X)) (match_directive u)"
proof -
  from assms(1) have ne: "u \<noteq> []" by auto
  from assms(1) have dw: "dropWhile is_space (u @ X) = dropWhile is_space u @ X"
    and tw: "takeWhile is_space (u @ X) = takeWhile is_space u"
    by auto
  from assms(1) have d: "dropWhile is_space u \<noteq> []" by auto
  have "last (takeWhile is_space u @ dropWhile is_space u) = last (dropWhile is_space u)"
    using d by (rule last_appendR)
  then have ld: "last (dropWhile is_space u) = CHR 0x0A"
    using assms(2) by simp
  note lit = match_literal_append_line [OF d ld, of X]
  show ?thesis
  proof (cases "match_literal ''// $'' (dropWhile is_space u)")
    case None
    then show ?thesis
      unfolding match_directive_def dw lit by simp
  next
    case (Some r)
    then have "dropWhile is_space u = ''// $'' @ r" by (simp only: match_literal_iff)
    with d ld have r: "r \<noteq> []" "last r = CHR 0x0A"
      by (auto split: if_splits)
    then have "CHR 0x0A \<in> set r" by (metis last_in_set)
    then have ex: "\<exists>x \<in> set r. \<not> is_upper_us x" by (rule bexI [rotated]) simp
    then have tr: "takeWhile is_upper_us (r @ X) = takeWhile is_upper_us r"
      and dr: "dropWhile is_upper_us (r @ X) = dropWhile is_upper_us r @ X"
      by auto
    from ex have "dropWhile is_upper_us r \<noteq> []" by auto
    then have eol: "at_eol (dropWhile is_upper_us r @ X) = at_eol (dropWhile is_upper_us r)"
      by (cases "dropWhile is_upper_us r") simp_all
    show ?thesis
      unfolding match_directive_def dw tw lit Some
      by (simp add: tr dr eol del: match_literal.simps)
  qed
qed

lemma match_directive_blank_prefix:
  assumes "list_all is_space b"
  shows "match_directive (b @ t) = map_option (\<lambda>(s, v, r). (b @ s, v, r)) (match_directive t)"
proof -
  from assms have dw: "dropWhile is_space (b @ t) = dropWhile is_space t"
    and tw: "takeWhile is_space (b @ t) = b @ takeWhile is_space t"
    by (simp_all add: list_all_iff)
  show ?thesis
    unfolding match_directive_def dw tw by (simp split: option.splits)
qed

lemma match_directive_blank: "list_all is_space b \<Longrightarrow> match_directive b = None"
  using match_directive_blank_prefix [of b "[]"] by simp

lemma takeWhile_line:
  "CHR 0x0A \<notin> set l \<Longrightarrow> at_eol e \<Longrightarrow> takeWhile (\<lambda>c. c \<noteq> CHR 0x0A) (l @ e) = l"
  by (cases e) (auto simp: takeWhile_tail)

lemma non_directive_line_no_match:
  assumes "CHR 0x0A \<notin> set l" and "\<not> list_all is_space l" and "directive_var l = None" and "at_eol e"
  shows "match_directive (l @ e) = None"
proof (cases "match_directive (l @ e)")
  case None
  then show ?thesis .
next
  case (Some m)
  from match_directive_Some [OF Some] obtain spc var rest where
    eq: "l @ e = spc @ ''// $'' @ var @ rest" and spc: "list_all is_space spc"
    and var: "var \<noteq> []" "list_all is_upper_us var" and rest: "at_eol rest"
    by blast
  have l: "takeWhile (\<lambda>c. c \<noteq> CHR 0x0A) (l @ e) = l"
    using assms(1,4) by (rule takeWhile_line)
  have "l = spc @ ''// $'' @ var"
  proof (cases "CHR 0x0A \<in> set spc")
    case True
    then have "takeWhile (\<lambda>c. c \<noteq> CHR 0x0A) (spc @ ''// $'' @ var @ rest)
        = takeWhile (\<lambda>c. c \<noteq> CHR 0x0A) spc"
      by (intro takeWhile_append1 [of "CHR 0x0A"]) simp_all
    with l eq have "l = takeWhile (\<lambda>c. c \<noteq> CHR 0x0A) spc" by simp
    then have "set l \<subseteq> set spc" by (metis set_takeWhileD subsetI)
    with spc have "list_all is_space l" by (auto simp: list_all_iff)
    with assms(2) show ?thesis by simp
  next
    case False
    with var(2) have "CHR 0x0A \<notin> set (spc @ ''// $'' @ var)"
      by (auto simp: list_all_iff)
    then have "takeWhile (\<lambda>c. c \<noteq> CHR 0x0A) ((spc @ ''// $'' @ var) @ rest) = spc @ ''// $'' @ var"
      using rest by (rule takeWhile_line)
    with l eq show ?thesis by simp
  qed
  with spc var have "directive_var l = Some var"
    unfolding directive_var_iff by blast
  with assms(3) show ?thesis by simp
qed

lemma split_lines_line: "CHR 0x0A \<notin> set l \<Longrightarrow> split_lines l = [l]"
  using split_lines_append_line [of l "[]"] by simp

lemma ends_nonblank_lineD:
  assumes "ends_nonblank_line u"
  shows "u \<noteq> []" and "last u = CHR 0x0A"
    and "\<exists>x \<in> set u. \<not> is_space x"
    and "\<And>a b. u = a @ CHR 0x0A # b \<Longrightarrow> b \<noteq> [] \<Longrightarrow> \<exists>x \<in> set b. \<not> is_space x"
proof -
  from assms show ne: "u \<noteq> []" and last: "last u = CHR 0x0A"
    by (simp_all add: ends_nonblank_line_def)
  from assms have nb: "\<not> list_all is_space (takeWhile (\<lambda>c. c \<noteq> CHR 0x0A) (rev (butlast u)))"
    by (simp add: ends_nonblank_line_def)
  then obtain x where "x \<in> set (takeWhile (\<lambda>c. c \<noteq> CHR 0x0A) (rev (butlast u)))" "\<not> is_space x"
    by (auto simp: list_all_iff)
  then have "x \<in> set (butlast u)" "\<not> is_space x"
    by (auto dest: set_takeWhileD)
  then show "\<exists>x \<in> set u. \<not> is_space x"
    by (blast dest: in_set_butlastD)
  fix a b assume u: "u = a @ CHR 0x0A # b" and b: "b \<noteq> []"
  then have "butlast u = a @ CHR 0x0A # butlast b"
    by (simp add: butlast_append)
  then have "rev (butlast u) = rev (butlast b) @ CHR 0x0A # rev a" by simp
  then have "takeWhile (\<lambda>c. c \<noteq> CHR 0x0A) (rev (butlast u))
      = takeWhile (\<lambda>c. c \<noteq> CHR 0x0A) (rev (butlast b))"
    by (simp add: takeWhile_tail)
  with nb obtain y where "y \<in> set (takeWhile (\<lambda>c. c \<noteq> CHR 0x0A) (rev (butlast b)))" "\<not> is_space y"
    by (auto simp: list_all_iff)
  then have "y \<in> set (butlast b)" "\<not> is_space y"
    by (auto dest: set_takeWhileD)
  then show "\<exists>x \<in> set b. \<not> is_space x"
    by (blast dest: in_set_butlastD)
qed

text \<open>After a line that is not blank, the scan starts afresh.\<close>

lemma re_sub_after_line:
  assumes "ends_nonblank_line u"
  shows "re_sub repl bol (u @ X) = then_append (re_sub repl bol u) (re_sub repl True X)"
proof -
  note D = ends_nonblank_lineD [OF assms]
  have "re_sub repl bol (u @ X)
      = then_append (re_sub repl bol u) (re_sub repl (if u = [] then bol else last u = CHR 0x0A) X)"
  proof (rule re_sub_append)
    show "match_directive (u @ X) = map_option (\<lambda>(s, v, r). (s, v, r @ X)) (match_directive u)"
      using D(3,2) by (rule match_directive_append_line)
  next
    fix a b assume u: "u = a @ CHR 0x0A # b" and b: "b \<noteq> []"
    from D(4) [OF u b] have "\<exists>x \<in> set b. \<not> is_space x" .
    moreover from u b D(2) have "last b = CHR 0x0A" by simp
    ultimately show "match_directive (b @ X) = map_option (\<lambda>(s, v, r). (s, v, r @ X)) (match_directive b)"
      by (rule match_directive_append_line)
  qed
  with D(1,2) show ?thesis by simp
qed

subsection \<open>The list directives\<close>

lemma join_Nil: "join [] xs = concat xs"
  by (induction "[] :: string" xs rule: join.induct) simp_all

lemma mod_entry_eq: "mod_entry spc c = spc @ ''mod '' @ cut_module c @ '';''"
  by (cases c) (simp add: mod_entry_def cut_module_def)

lemma const_entries_eq:
  "concat (map (const_entries spc) cuts)
     = map (\<lambda>c. spc @ ''pub const '' @ the (cut_const c) @ '': u64 = '' @ cut_version c @ '';'')
         (filter (\<lambda>c. cut_const c \<noteq> None) cuts)"
  by (induction cuts) (auto simp: const_entries_def cut_const_def cut_version_def split: option.splits)

lemma substitute_MOD_CUTS:
  "substitute cuts spc ''MOD_CUTS''
     = Inr (concat (map (\<lambda>c. spc @ ''mod '' @ cut_module c @ '';'') cuts))"
  by (simp add: substitute_def join_Nil mod_entry_eq [abs_def])

lemma substitute_FEATURE_CONSTS:
  "substitute cuts spc ''FEATURE_CONSTS''
     = Inr (concat (map (\<lambda>c. spc @ ''pub const '' @ the (cut_const c) @ '': u64 = '' @ cut_version c @ '';'')
              (filter (\<lambda>c. cut_const c \<noteq> None) cuts)))"
  by (simp add: substitute_def join_Nil const_entries_eq)

lemma re_sub_directive_line:
  assumes "pre = [] \<or> ends_nonblank_line pre" and "list_all is_space spc"
    and "var \<noteq> []" and "list_all is_upper_us var" and "at_eol rest"
  shows "re_sub repl True (pre @ spc @ ''// $'' @ var @ rest)
           = then_append (re_sub repl True pre) (then_append (repl spc var) (re_sub repl False rest))"
proof -
  from assms(2-5) have "match_directive (spc @ ''// $'' @ var @ rest) = Some (spc, var, rest)"
    unfolding match_directive_iff by blast
  then have m: "re_sub repl True (spc @ ''// $'' @ var @ rest)
      = then_append (repl spc var) (re_sub repl False rest)"
    by (rule re_sub_match_then)
  from assms(1) show ?thesis
  proof
    assume "pre = []"
    with m show ?thesis by simp
  next
    assume "ends_nonblank_line pre"
    then have "re_sub repl True (pre @ spc @ ''// $'' @ var @ rest)
        = then_append (re_sub repl True pre) (re_sub repl True (spc @ ''// $'' @ var @ rest))"
      by (rule re_sub_after_line)
    with m show ?thesis by simp
  qed
qed

subsection \<open>The dispatch directives\<close>

lemma executor_entry_eq:
  "executor_entry spc c
     = spc @ (case cut_const c of None \<Rightarrow> cut_version c
              | Some f \<Rightarrow> if f = [] then cut_version c else f)
       @ '' => Arc::new('' @ cut_module c @ ''::Executor::new('' @ [CHR 0x0A]
       @ spc @ ''    protocol_config,'' @ [CHR 0x0A]
       @ spc @ ''    paranoid_type_checks,'' @ [CHR 0x0A]
       @ spc @ ''    silent,'' @ [CHR 0x0A]
       @ spc @ '')?),'' @ [CHR 0x0A]"
  by (cases c)
    (simp add: executor_entry_def feature_or_version_def cut_const_def cut_version_def
       cut_module_def split: option.splits)

lemma verifier_entry_eq:
  "verifier_entry spc c
     = spc @ (case cut_const c of None \<Rightarrow> cut_version c
              | Some f \<Rightarrow> if f = [] then cut_version c else f)
       @ '' => Box::new('' @ cut_module c
       @ ''::Verifier::new(protocol_config, is_metered, metrics)),''"
  by (cases c)
    (simp add: verifier_entry_def feature_or_version_def cut_const_def cut_version_def
       cut_module_def split: option.splits)

lemma known_directive_shape:
  "v \<in> set known_directives \<Longrightarrow> v \<noteq> [] \<and> list_all is_upper_us v"
  by (auto simp: known_directives_def is_upper_us_def is_upper_def)

subsection \<open>Lines that are not directive lines\<close>

lemma re_sub_plain_line:
  assumes "pre = [] \<or> last pre = CHR 0x0A"
    and "CHR 0x0A \<notin> set l" and "\<not> list_all is_space l" and "directive_var l = None" and "at_eol e"
  shows "re_sub repl True (pre @ l @ e)
           = then_append (re_sub repl True pre) (then_append (Inr l) (re_sub repl False e))"
proof -
  note no_match = non_directive_line_no_match [OF assms(2-4)]
  from assms(3) have l: "l \<noteq> []" by auto
  with assms(2) have last_l: "last l \<noteq> CHR 0x0A" by (metis last_in_set)
  have "directives_ahead True l = []"
    using assms(2,4) by (simp add: directives_ahead_def split_lines_line map_filter_simps)
  then have verb: "re_sub repl True l = Inr l" by (rule re_sub_verbatim)
  have "re_sub repl True (l @ e)
      = then_append (re_sub repl True l) (re_sub repl (if l = [] then True else last l = CHR 0x0A) e)"
  proof (rule re_sub_append)
    have "match_directive (l @ []) = None" by (rule no_match) simp
    moreover have "match_directive (l @ e) = None" using assms(5) by (rule no_match)
    ultimately show "match_directive (l @ e) = map_option (\<lambda>(s, v, r). (s, v, r @ e)) (match_directive l)"
      by simp
  next
    fix a b assume "l = a @ CHR 0x0A # b"
    with assms(2) show "match_directive (b @ e) = map_option (\<lambda>(s, v, r). (s, v, r @ e)) (match_directive b)"
      by simp
  qed
  with l last_l verb have line: "re_sub repl True (l @ e) = then_append (Inr l) (re_sub repl False e)"
    by simp
  from assms(1) show ?thesis
  proof
    assume "pre = []"
    with line show ?thesis by simp
  next
    assume last: "last pre = CHR 0x0A"
    show ?thesis
    proof (cases "pre = []")
      case True
      with line show ?thesis by simp
    next
      case False
      have agree: "match_directive (b @ l @ e)
          = map_option (\<lambda>(s, v, r). (s, v, r @ l @ e)) (match_directive b)"
        if "b \<noteq> []" "last b = CHR 0x0A" for b
      proof (cases "list_all is_space b")
        case True
        then have "match_directive (b @ l @ e) = None"
          using no_match [OF assms(5)] by (simp add: match_directive_blank_prefix)
        with True show ?thesis by (simp add: match_directive_blank)
      next
        case False
        then have "\<exists>x \<in> set b. \<not> is_space x" by (simp add: list_all_iff)
        then show ?thesis using that(2) by (rule match_directive_append_line)
      qed
      have "re_sub repl True (pre @ l @ e)
          = then_append (re_sub repl True pre)
              (re_sub repl (if pre = [] then True else last pre = CHR 0x0A) (l @ e))"
      proof (rule re_sub_append)
        show "match_directive (pre @ l @ e)
            = map_option (\<lambda>(s, v, r). (s, v, r @ l @ e)) (match_directive pre)"
          using False last by (rule agree)
      next
        fix a b assume "pre = a @ CHR 0x0A # b" and b: "b \<noteq> []"
        with last have "last b = CHR 0x0A" by simp
        with b show "match_directive (b @ l @ e)
            = map_option (\<lambda>(s, v, r). (s, v, r @ l @ e)) (match_directive b)"
          by (rule agree)
      qed
      with False last line show ?thesis by simp
    qed
  qed
qed

section \<open>The claims\<close>

text \<open>
  C1. The claim: features are ordered by creation time, then by name, so that of \<^verbatim>\<open>b\<close>
  (created first) and \<^verbatim>\<open>a\<close> (created second) \<^verbatim>\<open>b\<close> gets \<^verbatim>\<open>u64::MAX\<close>.
  The code has no creation time: \<^verbatim>\<open>feature_key\<close> is the name, and the comment at the loop
  says that features get their versions in lexicographical order. With the features \<^verbatim>\<open>b\<close>
  and \<^verbatim>\<open>a\<close>, in either listing order, \<^verbatim>\<open>a\<close> gets \<^verbatim>\<open>u64::MAX\<close> and \<^verbatim>\<open>b\<close> gets
  \<^verbatim>\<open>u64::MAX - 1\<close>.
\<close>

theorem features_by_name_counterexample:
  "discover_cuts [regular_file ''b'', regular_file ''a'']
     = Inr [(''u64::MAX'', Some ''A'', ''a''), (''u64::MAX - 1'', Some ''B'', ''b'')]
   \<and> discover_cuts [regular_file ''a'', regular_file ''b'']
     = Inr [(''u64::MAX'', Some ''A'', ''a''), (''u64::MAX - 1'', Some ''B'', ''b'')]
   \<and> discover_cuts [regular_file ''b'', regular_file ''a'']
     \<noteq> Inr [(''u64::MAX'', Some ''B'', ''b''), (''u64::MAX - 1'', Some ''A'', ''a'')]"
  by code_simp

text \<open>
  C1, amended. For every directory listing on which \<^verbatim>\<open>discover_cuts\<close> returns a registry,
  the feature cuts stand in the registry in ascending order of their names (the order of
  code points), and the one at position \<open>i\<close> has the version \<open>feature_version i\<close> and
  the upper-cased name as its constant.
\<close>

theorem features_ordered_by_name:
  assumes "discover_cuts dir = Inr cuts"
  shows "let fs = filter (\<lambda>c. cut_const c \<noteq> None) cuts in
           map cut_module fs = sort (map stem (filter (\<lambda>f. classify f = Feature) dir))
           \<and> (\<forall>i<length fs.
                 fs ! i = (feature_version i, Some (upper (cut_module (fs ! i))), cut_module (fs ! i)))"
proof -
  define fs where "fs = filter (\<lambda>c. cut_const c \<noteq> None) cuts"
  define ps where "ps = sort_key feature_key (filter (\<lambda>f. classify f = Feature) dir)"
  have fs: "fs = feature_cuts ps"
    unfolding fs_def ps_def by (rule discover_cuts_features [OF assms])
  have key: "feature_key = stem"
    by (rule ext) (simp add: feature_key_def)
  have names: "map cut_module fs = sort (map stem (filter (\<lambda>f. classify f = Feature) dir))"
    by (simp add: fs map_module_feature_cuts ps_def key sort_map_sort_key)
  have nth: "\<forall>i<length fs.
      fs ! i = (feature_version i, Some (upper (cut_module (fs ! i))), cut_module (fs ! i))"
    by (simp add: fs feature_cuts_nth cut_module_def)
  from names nth show ?thesis
    unfolding fs_def [symmetric] Let_def by blast
qed

theorem features_ordered_by_name_witness:
  "discover_cuts [regular_file ''b'', regular_file ''a'']
     = Inr [(''u64::MAX'', Some ''A'', ''a''), (''u64::MAX - 1'', Some ''B'', ''b'')]
   \<and> map cut_module [(''u64::MAX'', Some ''A'', ''a''), (''u64::MAX - 1'', Some ''B'', ''b'')]
     = sort (map stem (filter (\<lambda>f. classify f = Feature) [regular_file ''b'', regular_file ''a'']))
   \<and> sort (map stem (filter (\<lambda>f. classify f = Feature) [regular_file ''b'', regular_file ''a'']))
     = [''a'', ''b'']"
proof -
  let ?R = "[(''u64::MAX'', Some ''A'', ''a''), (''u64::MAX - 1'', Some ''B'', ''b'')] :: cut list"
  have run: "discover_cuts [regular_file ''b'', regular_file ''a''] = Inr ?R"
    by code_simp
  have F: "filter (\<lambda>c. cut_const c \<noteq> None) ?R = ?R"
    by (simp add: cut_const_def)
  from features_ordered_by_name [OF run]
  have A: "map cut_module ?R
      = sort (map stem (filter (\<lambda>f. classify f = Feature) [regular_file ''b'', regular_file ''a'']))"
    unfolding Let_def F by blast
  then have "sort (map stem (filter (\<lambda>f. classify f = Feature) [regular_file ''b'', regular_file ''a'']))
      = [''a'', ''b'']"
    by (simp add: cut_module_def)
  with run A show ?thesis by blast
qed

text \<open>
  C2. The claim: whenever \<^verbatim>\<open>latest\<close> is among the snapshots it gets 1 + the largest version
  of the others, and version 0, without an error, when it is the only snapshot.
  The code computes \<^verbatim>\<open>1 + max(...)\<close> over the registry built so far and gives \<^verbatim>\<open>max\<close> no
  default: with \<^verbatim>\<open>latest\<close> as the only snapshot the registry is empty there and \<^verbatim>\<open>max\<close>
  raises \<^verbatim>\<open>ValueError\<close>. The directory below holds the single file \<^verbatim>\<open>latest.rs\<close>.
\<close>

theorem latest_alone_raises:
  "discover_cuts [\<lparr>stem = ''latest'', is_file = True\<rparr>] = Inl ValueError"
  by code_simp

text \<open>
  C3. The claim: a name is a snapshot exactly when the whole name is \<^verbatim>\<open>latest\<close> or \<^verbatim>\<open>v\<close> and
  digits; any other name, \<^verbatim>\<open>v1x\<close> for one, is a feature and is processed without an
  exception. The code tests the name with \<^verbatim>\<open>re.match\<close>, which accepts a matching prefix:
  \<^verbatim>\<open>v1x\<close> matches with \<^verbatim>\<open>v1\<close>, is put with the snapshots, and its sort key \<^verbatim>\<open>int("1x")\<close>
  raises \<^verbatim>\<open>ValueError\<close>. The directory below holds the single file \<^verbatim>\<open>v1x.rs\<close>.
\<close>

theorem v1x_is_snapshot_and_raises:
  "re_match_snapshot ''v1x'' = Some ''v1''
   \<and> classify \<lparr>stem = ''v1x'', is_file = True\<rparr> = Snapshot
   \<and> discover_cuts [\<lparr>stem = ''v1x'', is_file = True\<rparr>] = Inl ValueError"
  by code_simp

text \<open>
  C4. The claim: whenever \<^verbatim>\<open>latest\<close> is among the snapshots, the snapshot versions are
  exactly 0 to \<open>k\<close>, where \<open>k + 1\<close> is the number of snapshots, and \<^verbatim>\<open>latest\<close> gets \<open>k\<close>.
  The code gives a numbered snapshot the number in its name (the docstring: \<^verbatim>\<open>v0\<close> gets 0,
  \<^verbatim>\<open>v1\<close> gets 1), whatever the other names are, and \<^verbatim>\<open>latest\<close> one more than the largest:
  with the two snapshots \<^verbatim>\<open>v1\<close> and \<^verbatim>\<open>latest\<close> the versions are 1 and 2, not 0 and 1.
\<close>

theorem snapshot_versions_counterexample:
  "discover_cuts [regular_file ''latest'', regular_file ''v1'']
     = Inr [(''1'', None, ''v1''), (''2'', None, ''latest'')]
   \<and> map cut_version [(''1'', None, ''v1''), (''2'', None, ''latest'')] \<noteq> [''0'', ''1'']"
  by code_simp

text \<open>
  C4, amended. When the snapshot modules of the directory are \<^verbatim>\<open>latest\<close> and at least one
  numbered snapshot \<^verbatim>\<open>vN\<close>, the numbers \<open>N\<close> pairwise different and written in decimal
  without leading zeros, listed in any order, the registry begins with the snapshots: every
  \<^verbatim>\<open>vN\<close> with the version \<open>N\<close> of its name, in ascending order of \<open>N\<close>, then \<^verbatim>\<open>latest\<close>
  with one more than the largest \<open>N\<close>; the feature cuts follow. A gap in the names is
  therefore a gap in the versions. In particular, when the numbered snapshots are \<^verbatim>\<open>v0\<close>,
  ..., \<^verbatim>\<open>v(k-1)\<close>, the versions are \<open>0\<close> to \<open>k - 1\<close> and \<^verbatim>\<open>latest\<close> gets \<open>k\<close>: the
  contiguous range of the claim.
\<close>

theorem snapshot_versions_from_names:
  assumes "ns \<noteq> []" and "distinct ns"
    and "mset (filter (\<lambda>f. classify f = Snapshot) dir)
           = mset (map (\<lambda>n. regular_file (snapshot_name n)) ns @ [regular_file ''latest''])"
  shows "discover_cuts dir
           = Inr (map (\<lambda>n. (str (int n), None, snapshot_name n)) (sort ns)
                  @ [(str (1 + int (Max (set ns))), None, ''latest'')]
                  @ feature_cuts (sort_key feature_key (filter (\<lambda>f. classify f = Feature) dir)))
         \<and> (set ns = {0..<k} \<longrightarrow>
              discover_cuts dir
                = Inr (map (\<lambda>n. (str (int n), None, snapshot_name n)) [0..<k]
                       @ [(str (int k), None, ''latest'')]
                       @ feature_cuts (sort_key feature_key (filter (\<lambda>f. classify f = Feature) dir))))"
proof -
  from assms(1) have ne: "sort ns \<noteq> []" by (cases ns) simp_all
  have gen: "discover_cuts dir
      = Inr (map (\<lambda>n. (str (int n), None, snapshot_name n)) (sort ns)
             @ [(str (1 + int (Max (set ns))), None, ''latest'')]
             @ feature_cuts (sort_key feature_key (filter (\<lambda>f. classify f = Feature) dir)))"
    using snapshot_cuts_numbers [OF ne]
    by (simp add: discover_cuts_def sort_by_numbers [OF assms(2,3)])
  have "discover_cuts dir
      = Inr (map (\<lambda>n. (str (int n), None, snapshot_name n)) [0..<k]
             @ [(str (int k), None, ''latest'')]
             @ feature_cuts (sort_key feature_key (filter (\<lambda>f. classify f = Feature) dir)))"
    if seg: "set ns = {0..<k}"
  proof -
    from assms(1) seg have k: "0 < k" by (cases k) auto
    then have "Max {0..<k} = k - 1"
      by (intro Max_eqI) auto
    with k seg have "1 + int (Max (set ns)) = int k" by simp
    with gen sort_initial_segment [OF assms(2) seg] show ?thesis by simp
  qed
  with gen show ?thesis by blast
qed

theorem snapshot_versions_from_names_witness:
  "discover_cuts [regular_file ''v7'', regular_file ''latest'', regular_file ''v2'']
     = Inr [(''2'', None, ''v2''), (''7'', None, ''v7''), (''8'', None, ''latest'')]
   \<and> discover_cuts [regular_file ''v1'', regular_file ''latest'', regular_file ''v0'', regular_file ''v2'']
     = Inr [(''0'', None, ''v0''), (''1'', None, ''v1''), (''2'', None, ''v2''), (''3'', None, ''latest'')]"
proof -
  let ?D = "[regular_file ''v7'', regular_file ''latest'', regular_file ''v2'']"
  let ?E = "[regular_file ''v1'', regular_file ''latest'', regular_file ''v0'', regular_file ''v2'']"
  have ne: "[7, 2] \<noteq> ([] :: nat list)" "[1, 0, 2] \<noteq> ([] :: nat list)" by simp_all
  have di: "distinct [7, 2 :: nat]" "distinct [1, 0, 2 :: nat]" by simp_all
  have snapsD: "filter (\<lambda>f. classify f = Snapshot) ?D = ?D" by code_simp
  have snapsE: "filter (\<lambda>f. classify f = Snapshot) ?E = ?E" by code_simp
  have namesD: "map (\<lambda>n. regular_file (snapshot_name n)) [7, 2] @ [regular_file ''latest'']
      = [regular_file ''v7'', regular_file ''v2'', regular_file ''latest'']"
    by code_simp
  have namesE: "map (\<lambda>n. regular_file (snapshot_name n)) [1, 0, 2] @ [regular_file ''latest'']
      = [regular_file ''v1'', regular_file ''v0'', regular_file ''v2'', regular_file ''latest'']"
    by code_simp
  have mD: "mset (filter (\<lambda>f. classify f = Snapshot) ?D)
      = mset (map (\<lambda>n. regular_file (snapshot_name n)) [7, 2] @ [regular_file ''latest''])"
    unfolding snapsD namesD by simp
  have mE: "mset (filter (\<lambda>f. classify f = Snapshot) ?E)
      = mset (map (\<lambda>n. regular_file (snapshot_name n)) [1, 0, 2] @ [regular_file ''latest''])"
    unfolding snapsE namesE by simp
  have seg: "set [1, 0, 2] = {0..<(3::nat)}" by auto
  from snapshot_versions_from_names [OF ne(1) di(1) mD]
  have "discover_cuts ?D
      = Inr (map (\<lambda>n. (str (int n), None, snapshot_name n)) (sort [7, 2])
             @ [(str (1 + int (Max (set [7, 2]))), None, ''latest'')]
             @ feature_cuts (sort_key feature_key (filter (\<lambda>f. classify f = Feature) ?D)))"
    by (rule conjunct1)
  also have "\<dots> = Inr [(''2'', None, ''v2''), (''7'', None, ''v7''), (''8'', None, ''latest'')]"
    by code_simp
  finally have rD: "discover_cuts ?D
      = Inr [(''2'', None, ''v2''), (''7'', None, ''v7''), (''8'', None, ''latest'')]" .
  from snapshot_versions_from_names [OF ne(2) di(2) mE, of 3]
  have "set [1, 0, 2] = {0..<(3::nat)} \<longrightarrow> discover_cuts ?E
      = Inr (map (\<lambda>n. (str (int n), None, snapshot_name n)) [0..<3]
             @ [(str (int 3), None, ''latest'')]
             @ feature_cuts (sort_key feature_key (filter (\<lambda>f. classify f = Feature) ?E)))"
    by (rule conjunct2)
  from this seg have "discover_cuts ?E
      = Inr (map (\<lambda>n. (str (int n), None, snapshot_name n)) [0..<3]
             @ [(str (int 3), None, ''latest'')]
             @ feature_cuts (sort_key feature_key (filter (\<lambda>f. classify f = Feature) ?E)))"
    by (rule mp)
  also have "\<dots> = Inr [(''0'', None, ''v0''), (''1'', None, ''v1''), (''2'', None, ''v2''),
                       (''3'', None, ''latest'')]"
    by code_simp
  finally have rE: "discover_cuts ?E
      = Inr [(''0'', None, ''v0''), (''1'', None, ''v1''), (''2'', None, ''v2''), (''3'', None, ''latest'')]" .
  from rD rE show ?thesis by (rule conjI)
qed

text \<open>
  C5. The claim: the module-list directive expands to one module declaration line per cut
  (the constant-list directive to one constant declaration line per feature cut), each
  with the indentation of the directive line. The code joins the declarations with the
  empty string, each preceded by group 1 of the match: for a directive line on the first
  line of the template, indented by two blanks, the two declarations of a registry of two
  cuts stand on one line.
\<close>

theorem mod_cuts_one_line_counterexample:
  "re_sub (substitute [(''0'', None, ''v0''), (''1'', None, ''latest'')]) True ''  // $MOD_CUTS''
     = Inr ''  mod v0;  mod latest;''
   \<and> split_lines ''  mod v0;  mod latest;'' = [''  mod v0;  mod latest;'']"
  by code_simp

text \<open>
  C5, amended. Let a directive line for \<^verbatim>\<open>MOD_CUTS\<close> (for \<^verbatim>\<open>FEATURE_CONSTS\<close>) stand in any
  template, \<open>spc\<close> being the whitespace from the start of the first of the blank lines
  directly above it (if there are any) to the marker, so that the text \<open>pre\<close> before \<open>spc\<close> is
  empty or ends with a line that is not blank. The directive line together with those
  blank lines is replaced by one declaration per cut (per feature cut), in registry order,
  each preceded by \<open>spc\<close> and nothing between them: the declarations stand on lines of their
  own exactly when there is a blank line above the directive line. What stands before
  and after is substituted by itself.
\<close>

theorem list_directives_expand:
  assumes "pre = [] \<or> ends_nonblank_line pre" and "list_all is_space spc" and "at_eol rest"
  shows "re_sub (substitute cuts) True (pre @ spc @ ''// $MOD_CUTS'' @ rest)
           = then_append (re_sub (substitute cuts) True pre)
               (then_append
                  (Inr (concat (map (\<lambda>c. spc @ ''mod '' @ cut_module c @ '';'') cuts)))
                  (re_sub (substitute cuts) False rest))
         \<and> re_sub (substitute cuts) True (pre @ spc @ ''// $FEATURE_CONSTS'' @ rest)
           = then_append (re_sub (substitute cuts) True pre)
               (then_append
                  (Inr (concat (map (\<lambda>c. spc @ ''pub const '' @ the (cut_const c) @ '': u64 = ''
                                         @ cut_version c @ '';'')
                                  (filter (\<lambda>c. cut_const c \<noteq> None) cuts))))
                  (re_sub (substitute cuts) False rest))"
proof -
  have up: "list_all is_upper_us ''MOD_CUTS''" "list_all is_upper_us ''FEATURE_CONSTS''"
    by (simp_all add: is_upper_us_def is_upper_def)
  have "re_sub (substitute cuts) True (pre @ spc @ ''// $'' @ ''MOD_CUTS'' @ rest)
      = then_append (re_sub (substitute cuts) True pre)
          (then_append (substitute cuts spc ''MOD_CUTS'') (re_sub (substitute cuts) False rest))"
    using assms(1,2) _ up(1) assms(3) by (rule re_sub_directive_line) simp
  moreover have "re_sub (substitute cuts) True (pre @ spc @ ''// $'' @ ''FEATURE_CONSTS'' @ rest)
      = then_append (re_sub (substitute cuts) True pre)
          (then_append (substitute cuts spc ''FEATURE_CONSTS'') (re_sub (substitute cuts) False rest))"
    using assms(1,2) _ up(2) assms(3) by (rule re_sub_directive_line) simp
  ultimately show ?thesis
    unfolding substitute_MOD_CUTS substitute_FEATURE_CONSTS by simp
qed

theorem list_directives_expand_witness:
  "re_sub (substitute [(''0'', None, ''v0''), (''1'', None, ''latest''), (''u64::MAX'', Some ''NEXT'', ''next'')])
     True (''use a;'' @ [CHR 0x0A] @ [CHR 0x0A] @ ''  // $MOD_CUTS'' @ [CHR 0x0A] @ ''use b;'')
   = Inr (''use a;'' @ [CHR 0x0A]
          @ [CHR 0x0A] @ ''  mod v0;''
          @ [CHR 0x0A] @ ''  mod latest;''
          @ [CHR 0x0A] @ ''  mod next;''
          @ [CHR 0x0A] @ ''use b;'')
   \<and> re_sub (substitute [(''0'', None, ''v0''), (''1'', None, ''latest''), (''u64::MAX'', Some ''NEXT'', ''next'')])
     True (''use a;'' @ [CHR 0x0A] @ [CHR 0x0A] @ ''  // $FEATURE_CONSTS'' @ [CHR 0x0A] @ ''use b;'')
   = Inr (''use a;'' @ [CHR 0x0A]
          @ [CHR 0x0A] @ ''  pub const NEXT: u64 = u64::MAX;''
          @ [CHR 0x0A] @ ''use b;'')"
proof -
  let ?C = "[(''0'', None, ''v0''), (''1'', None, ''latest''), (''u64::MAX'', Some ''NEXT'', ''next'')] :: cut list"
  let ?pre = "''use a;'' @ [CHR 0x0A]"
  let ?spc = "[CHR 0x0A] @ ''  ''"
  let ?rest = "[CHR 0x0A] @ ''use b;''"
  have pre: "?pre = [] \<or> ends_nonblank_line ?pre" by code_simp
  have spc: "list_all is_space ?spc" by code_simp
  have rest: "at_eol ?rest" by simp
  note inst = list_directives_expand [OF pre spc rest, of ?C]
  have 1: "then_append (re_sub (substitute ?C) True ?pre)
        (then_append (Inr (concat (map (\<lambda>c. ?spc @ ''mod '' @ cut_module c @ '';'') ?C)))
           (re_sub (substitute ?C) False ?rest))
      = Inr (''use a;'' @ [CHR 0x0A]
          @ [CHR 0x0A] @ ''  mod v0;''
          @ [CHR 0x0A] @ ''  mod latest;''
          @ [CHR 0x0A] @ ''  mod next;''
          @ [CHR 0x0A] @ ''use b;'')"
    by code_simp
  have 2: "then_append (re_sub (substitute ?C) True ?pre)
        (then_append
           (Inr (concat (map (\<lambda>c. ?spc @ ''pub const '' @ the (cut_const c) @ '': u64 = ''
                                  @ cut_version c @ '';'')
                           (filter (\<lambda>c. cut_const c \<noteq> None) ?C))))
           (re_sub (substitute ?C) False ?rest))
      = Inr (''use a;'' @ [CHR 0x0A]
          @ [CHR 0x0A] @ ''  pub const NEXT: u64 = u64::MAX;''
          @ [CHR 0x0A] @ ''use b;'')"
    by code_simp
  from inst show ?thesis unfolding 1 2 by simp
qed

text \<open>
  C6. The claim: the feature name is accepted exactly when the whole string is a lowercase
  letter followed by letters, digits and underscores, and \<^verbatim>\<open>a-b\<close> is rejected.
  The validator uses \<^verbatim>\<open>re.match\<close>, which accepts a matching prefix: on \<^verbatim>\<open>a-b\<close> the pattern
  matches the prefix \<^verbatim>\<open>a\<close> and the whole argument is returned as valid.
\<close>

theorem feature_accepts_hyphenated:
  "re_match_feature ''a-b'' = Some ''a'' \<and> feature ''a-b'' = Inr ''a-b''"
  by code_simp

text \<open>
  C7. For every directory listing on which \<^verbatim>\<open>discover_cuts\<close> returns a registry, the feature
  cuts of the registry (the cuts with a constant name) are one per feature module, and in
  registry order their versions are \<^verbatim>\<open>u64::MAX\<close>, \<^verbatim>\<open>u64::MAX - 1\<close>, \<^verbatim>\<open>u64::MAX - 2\<close>, ...:
  the first is \<^verbatim>\<open>u64::MAX\<close>, the one at position \<open>i\<close> denotes \<open>2^64 - 1 - i\<close>, the values
  are strictly decreasing and the versions are pairwise distinct.
\<close>

theorem feature_versions_descend:
  assumes "discover_cuts dir = Inr cuts"
  shows "let fs = filter (\<lambda>c. cut_const c \<noteq> None) cuts in
           length fs = length (filter (\<lambda>f. classify f = Feature) dir)
           \<and> map cut_version fs = map feature_version [0..<length fs]
           \<and> (fs \<noteq> [] \<longrightarrow> cut_version (hd fs) = ''u64::MAX'')
           \<and> (\<forall>i<length fs. version_value (cut_version (fs ! i)) = Some (u64_MAX - int i))
           \<and> (\<forall>i j. i < j \<and> j < length fs \<longrightarrow>
                 the (version_value (cut_version (fs ! j))) < the (version_value (cut_version (fs ! i))))
           \<and> distinct (map cut_version fs)"
proof -
  define fs where "fs = filter (\<lambda>c. cut_const c \<noteq> None) cuts"
  define ps where "ps = sort_key feature_key (filter (\<lambda>f. classify f = Feature) dir)"
  have fs: "fs = feature_cuts ps"
    unfolding fs_def ps_def by (rule discover_cuts_features [OF assms])
  have len: "length fs = length (filter (\<lambda>f. classify f = Feature) dir)"
    by (simp add: fs ps_def)
  have vs: "map cut_version fs = map feature_version [0..<length fs]"
    by (simp add: fs map_version_feature_cuts)
  have nth: "cut_version (fs ! i) = feature_version i" if "i < length fs" for i
    using that by (simp add: fs feature_cuts_nth cut_version_def)
  have first: "fs \<noteq> [] \<longrightarrow> cut_version (hd fs) = ''u64::MAX''"
    using nth [of 0] by (auto simp: hd_conv_nth feature_version_def)
  have val: "\<forall>i<length fs. version_value (cut_version (fs ! i)) = Some (u64_MAX - int i)"
    by (simp add: nth version_value_feature_version)
  have dec: "\<forall>i j. i < j \<and> j < length fs \<longrightarrow>
      the (version_value (cut_version (fs ! j))) < the (version_value (cut_version (fs ! i)))"
    by (simp add: nth version_value_feature_version)
  have "inj_on feature_version (set [0..<length fs])"
    by (rule inj_onI) (rule feature_version_inj)
  then have dist: "distinct (map cut_version fs)"
    unfolding vs by (simp add: distinct_map)
  from len vs first val dec dist show ?thesis
    unfolding fs_def [symmetric] Let_def by blast
qed

theorem feature_versions_descend_witness:
  "discover_cuts [regular_file ''zeta'', regular_file ''v0'', regular_file ''alpha'',
                  regular_file ''latest'', regular_file ''mid'']
     = Inr [(''0'', None, ''v0''), (''1'', None, ''latest''),
            (''u64::MAX'', Some ''ALPHA'', ''alpha''),
            (''u64::MAX - 1'', Some ''MID'', ''mid''),
            (''u64::MAX - 2'', Some ''ZETA'', ''zeta'')]
   \<and> map cut_version [(''u64::MAX'', Some ''ALPHA'', ''alpha''),
            (''u64::MAX - 1'', Some ''MID'', ''mid''),
            (''u64::MAX - 2'', Some ''ZETA'', ''zeta'')] = map feature_version [0..<3]
   \<and> distinct [''u64::MAX'', ''u64::MAX - 1'', ''u64::MAX - 2'']
   \<and> version_value ''u64::MAX - 2'' = Some (u64_MAX - 2)"
proof -
  let ?R = "[(''0'', None, ''v0''), (''1'', None, ''latest''),
            (''u64::MAX'', Some ''ALPHA'', ''alpha''),
            (''u64::MAX - 1'', Some ''MID'', ''mid''),
            (''u64::MAX - 2'', Some ''ZETA'', ''zeta'')] :: cut list"
  let ?F = "[(''u64::MAX'', Some ''ALPHA'', ''alpha''),
            (''u64::MAX - 1'', Some ''MID'', ''mid''),
            (''u64::MAX - 2'', Some ''ZETA'', ''zeta'')] :: cut list"
  have run: "discover_cuts [regular_file ''zeta'', regular_file ''v0'', regular_file ''alpha'',
                  regular_file ''latest'', regular_file ''mid''] = Inr ?R"
    by code_simp
  have F: "filter (\<lambda>c. cut_const c \<noteq> None) ?R = ?F"
    by (simp add: cut_const_def)
  have len: "length ?F = 3" by simp
  from feature_versions_descend [OF run]
  have A: "map cut_version ?F = map feature_version [0..<length ?F]"
    and B: "\<forall>i<length ?F. version_value (cut_version (?F ! i)) = Some (u64_MAX - int i)"
    and C: "distinct (map cut_version ?F)"
    unfolding Let_def F by blast+
  from B have "2 < length ?F \<longrightarrow> version_value (cut_version (?F ! 2)) = Some (u64_MAX - int 2)"
    by (rule spec)
  then have B2: "version_value ''u64::MAX - 2'' = Some (u64_MAX - 2)"
    by (simp add: cut_version_def)
  from C have C2: "distinct [''u64::MAX'', ''u64::MAX - 1'', ''u64::MAX - 2'']"
    by (simp add: cut_version_def)
  from run A B2 C2 show ?thesis unfolding len by blast
qed

text \<open>
  C8. The claim: for a fixed set of module names and a fixed template, two runs give the
  same registry and the same output. The registry is built from the listing
  \<^verbatim>\<open>src.iterdir()\<close>, whose order is not fixed by the set of names, and the sort of the
  snapshots is stable: two snapshot names with the same number, \<^verbatim>\<open>v1\<close> and \<^verbatim>\<open>v01\<close>, stay
  in the order of the listing. The two listings below hold the same two files; registry
  and generated text differ.
\<close>

theorem listing_order_counterexample:
  "mset [regular_file ''v1'', regular_file ''v01''] = mset [regular_file ''v01'', regular_file ''v1'']
   \<and> discover_cuts [regular_file ''v1'', regular_file ''v01'']
       = Inr [(''1'', None, ''v1''), (''01'', None, ''v01'')]
   \<and> discover_cuts [regular_file ''v01'', regular_file ''v1'']
       = Inr [(''01'', None, ''v01''), (''1'', None, ''v1'')]
   \<and> generate_lib [regular_file ''v1'', regular_file ''v01''] ''// $MOD_CUTS'' None
       = (Inr (), Some ''mod v1;mod v01;'')
   \<and> generate_lib [regular_file ''v01'', regular_file ''v1''] ''// $MOD_CUTS'' None
       = (Inr (), Some ''mod v01;mod v1;'')"
  by code_simp

text \<open>
  C8, amended. When no two different snapshot modules of the directory have the same sort
  key, the registry and the outcome of \<^verbatim>\<open>generate_lib\<close> (what it returns or raises, and the
  content of the output file) do not depend on the order of the listing: they are the same
  for any two listings of the same entries.
\<close>

theorem generation_independent_of_listing_order:
  assumes "mset dir = mset dir'"
    and "inj_on snapshot_key (set (filter (\<lambda>f. classify f = Snapshot) dir))"
  shows "discover_cuts dir = discover_cuts dir'
         \<and> generate_lib dir template lib = generate_lib dir' template lib"
  using discover_cuts_permuted [OF assms] by (simp add: generate_lib_def)

theorem generation_independent_of_listing_order_witness:
  "mset [regular_file ''v1'', regular_file ''latest'', regular_file ''next'', regular_file ''v0'']
     = mset [regular_file ''v0'', regular_file ''next'', regular_file ''v1'', regular_file ''latest'']
   \<and> discover_cuts [regular_file ''v1'', regular_file ''latest'', regular_file ''next'', regular_file ''v0'']
     = discover_cuts [regular_file ''v0'', regular_file ''next'', regular_file ''v1'', regular_file ''latest'']
   \<and> generate_lib [regular_file ''v1'', regular_file ''latest'', regular_file ''next'', regular_file ''v0'']
         ''// $MOD_CUTS'' None
     = generate_lib [regular_file ''v0'', regular_file ''next'', regular_file ''v1'', regular_file ''latest'']
         ''// $MOD_CUTS'' None
   \<and> discover_cuts [regular_file ''v0'', regular_file ''next'', regular_file ''v1'', regular_file ''latest'']
     = Inr [(''0'', None, ''v0''), (''1'', None, ''v1''), (''2'', None, ''latest''),
            (''u64::MAX'', Some ''NEXT'', ''next'')]"
proof -
  let ?D = "[regular_file ''v1'', regular_file ''latest'', regular_file ''next'', regular_file ''v0'']"
  let ?D' = "[regular_file ''v0'', regular_file ''next'', regular_file ''v1'', regular_file ''latest'']"
  have m: "mset ?D = mset ?D'" by simp
  have snaps: "filter (\<lambda>f. classify f = Snapshot) ?D
      = [regular_file ''v1'', regular_file ''latest'', regular_file ''v0'']"
    by code_simp
  have keys: "map snapshot_key [regular_file ''v1'', regular_file ''latest'', regular_file ''v0'']
      = [Inr (Num 1), Inr Infinity, Inr (Num 0)]"
    by code_simp
  have "distinct (map snapshot_key [regular_file ''v1'', regular_file ''latest'', regular_file ''v0''])"
    unfolding keys by simp
  then have inj: "inj_on snapshot_key (set (filter (\<lambda>f. classify f = Snapshot) ?D))"
    unfolding snaps by (simp only: distinct_map)
  have run: "discover_cuts ?D' = Inr [(''0'', None, ''v0''), (''1'', None, ''v1''), (''2'', None, ''latest''),
            (''u64::MAX'', Some ''NEXT'', ''next'')]"
    by code_simp
  from generation_independent_of_listing_order [OF m inj, of "''// $MOD_CUTS''" None] m run
  show ?thesis by blast
qed

text \<open>
  C9. For every registry and every template: when some directive line of the template
  names an identifier that is not one of the five known ones, the substitution raises
  \<^verbatim>\<open>AssertionError\<close>, for the first such identifier of the template; when every directive
  line names a known identifier, the substitution returns a text. Each of the five known
  identifiers is expanded without an error, and to this text, \<open>spc\<close> being the whitespace
  matched before the marker:

    \<^item> \<^verbatim>\<open>GENERATED_MESSAGE\<close>: \<open>spc\<close> and the comment that the file is generated;
    \<^item> \<^verbatim>\<open>MOD_CUTS\<close>: for every cut, \<open>spc\<close> and the declaration of its module, nothing between
      them;
    \<^item> \<^verbatim>\<open>FEATURE_CONSTS\<close>: for every cut that has a constant, \<open>spc\<close> and the declaration of the
      constant with the version of the cut, nothing between them;
    \<^item> \<^verbatim>\<open>EXECUTOR_CUTS\<close>: for every cut, a match arm of five lines, each line after \<open>spc\<close>,
      from the constant of the cut (its version, when it has no constant or an empty one)
      to the executor of its module, ended by a line feed; a line feed between the arms;
    \<^item> \<^verbatim>\<open>VERIFIER_CUTS\<close>: for every cut, \<open>spc\<close> and a match arm of one line, from the constant
      of the cut (its version, when it has no constant or an empty one) to the verifier of
      its module; a line feed between the arms.

  A directive line of a known identifier, standing at the start of the template or after a
  line that is not blank, is replaced by the expansion of its identifier; what stands
  before and after the line is substituted by itself.
\<close>

theorem unknown_directive_raises:
  "(\<forall>v. find (\<lambda>v. v \<notin> set known_directives) (directive_vars template) = Some v
        \<longrightarrow> re_sub (substitute cuts) True template = Inl (AssertionError v))
   \<and> (find (\<lambda>v. v \<notin> set known_directives) (directive_vars template) = None
        \<longrightarrow> (\<exists>out. re_sub (substitute cuts) True template = Inr out))
   \<and> (\<forall>v \<in> set known_directives. \<exists>out. substitute cuts spc v = Inr out)
   \<and> substitute cuts spc ''GENERATED_MESSAGE''
       = Inr (spc @ ''// DO NOT MODIFY, Generated by ./scripts/execution-layer'')
   \<and> substitute cuts spc ''MOD_CUTS''
       = Inr (concat (map (\<lambda>c. spc @ ''mod '' @ cut_module c @ '';'') cuts))
   \<and> substitute cuts spc ''FEATURE_CONSTS''
       = Inr (concat (map (\<lambda>c. spc @ ''pub const '' @ the (cut_const c) @ '': u64 = ''
                                 @ cut_version c @ '';'')
                        (filter (\<lambda>c. cut_const c \<noteq> None) cuts)))
   \<and> substitute cuts spc ''EXECUTOR_CUTS''
       = Inr (join [CHR 0x0A]
                (map (\<lambda>c. spc @ (case cut_const c of None \<Rightarrow> cut_version c
                                     | Some f \<Rightarrow> if f = [] then cut_version c else f)
                           @ '' => Arc::new('' @ cut_module c @ ''::Executor::new('' @ [CHR 0x0A]
                           @ spc @ ''    protocol_config,'' @ [CHR 0x0A]
                           @ spc @ ''    paranoid_type_checks,'' @ [CHR 0x0A]
                           @ spc @ ''    silent,'' @ [CHR 0x0A]
                           @ spc @ '')?),'' @ [CHR 0x0A])
                   cuts))
   \<and> substitute cuts spc ''VERIFIER_CUTS''
       = Inr (join [CHR 0x0A]
                (map (\<lambda>c. spc @ (case cut_const c of None \<Rightarrow> cut_version c
                                     | Some f \<Rightarrow> if f = [] then cut_version c else f)
                           @ '' => Box::new('' @ cut_module c
                           @ ''::Verifier::new(protocol_config, is_metered, metrics)),'')
                   cuts))
   \<and> ((pre = [] \<or> ends_nonblank_line pre) \<and> list_all is_space spc
        \<and> var \<in> set known_directives \<and> at_eol rest
        \<longrightarrow> re_sub (substitute cuts) True (pre @ spc @ ''// $'' @ var @ rest)
              = then_append (re_sub (substitute cuts) True pre)
                  (then_append (substitute cuts spc var) (re_sub (substitute cuts) False rest)))"
proof -
  have unknown: "\<forall>v. find (\<lambda>v. v \<notin> set known_directives) (directive_vars template) = Some v
        \<longrightarrow> re_sub (substitute cuts) True template = Inl (AssertionError v)"
    using re_sub_substitute [where bol = True and t = template and cuts = cuts]
    by (simp add: directives_ahead_True split: option.splits)
  have known: "find (\<lambda>v. v \<notin> set known_directives) (directive_vars template) = None
        \<longrightarrow> (\<exists>out. re_sub (substitute cuts) True template = Inr out)"
    using re_sub_substitute [where bol = True and t = template and cuts = cuts]
    by (simp add: directives_ahead_True split: option.splits)
  have each: "\<forall>v \<in> set known_directives. \<exists>out. substitute cuts spc v = Inr out"
    using substitute_known [where cuts = cuts and spc = spc] by blast
  have message: "substitute cuts spc ''GENERATED_MESSAGE''
      = Inr (spc @ ''// DO NOT MODIFY, Generated by ./scripts/execution-layer'')"
    by (simp add: substitute_def)
  have executor: "substitute cuts spc ''EXECUTOR_CUTS''
      = Inr (join [CHR 0x0A]
               (map (\<lambda>c. spc @ (case cut_const c of None \<Rightarrow> cut_version c
                                     | Some f \<Rightarrow> if f = [] then cut_version c else f)
                           @ '' => Arc::new('' @ cut_module c @ ''::Executor::new('' @ [CHR 0x0A]
                           @ spc @ ''    protocol_config,'' @ [CHR 0x0A]
                           @ spc @ ''    paranoid_type_checks,'' @ [CHR 0x0A]
                           @ spc @ ''    silent,'' @ [CHR 0x0A]
                           @ spc @ '')?),'' @ [CHR 0x0A])
                  cuts))"
    by (simp add: substitute_def executor_entry_eq [abs_def])
  have verifier: "substitute cuts spc ''VERIFIER_CUTS''
      = Inr (join [CHR 0x0A]
               (map (\<lambda>c. spc @ (case cut_const c of None \<Rightarrow> cut_version c
                                     | Some f \<Rightarrow> if f = [] then cut_version c else f)
                           @ '' => Box::new('' @ cut_module c
                           @ ''::Verifier::new(protocol_config, is_metered, metrics)),'')
                  cuts))"
    by (simp add: substitute_def verifier_entry_eq [abs_def])
  have line: "(pre = [] \<or> ends_nonblank_line pre) \<and> list_all is_space spc
        \<and> var \<in> set known_directives \<and> at_eol rest
        \<longrightarrow> re_sub (substitute cuts) True (pre @ spc @ ''// $'' @ var @ rest)
              = then_append (re_sub (substitute cuts) True pre)
                  (then_append (substitute cuts spc var) (re_sub (substitute cuts) False rest))"
  proof (intro impI, elim conjE)
    assume a: "pre = [] \<or> ends_nonblank_line pre" "list_all is_space spc"
      "var \<in> set known_directives" "at_eol rest"
    note shape = known_directive_shape [OF a(3)]
    from a(1,2) conjunct1 [OF shape] conjunct2 [OF shape] a(4)
    show "re_sub (substitute cuts) True (pre @ spc @ ''// $'' @ var @ rest)
        = then_append (re_sub (substitute cuts) True pre)
            (then_append (substitute cuts spc var) (re_sub (substitute cuts) False rest))"
      by (rule re_sub_directive_line)
  qed
  show ?thesis
    by (rule conjI [OF unknown conjI [OF known conjI [OF each conjI [OF message
          conjI [OF substitute_MOD_CUTS conjI [OF substitute_FEATURE_CONSTS
          conjI [OF executor conjI [OF verifier line]]]]]]]])
qed

theorem unknown_directive_raises_witness:
  "find (\<lambda>v. v \<notin> set known_directives)
        (directive_vars (''// $MOD_CUTS'' @ [CHR 0x0A] @ ''  // $NOPE'' @ [CHR 0x0A] @ ''// $ALSO_BAD''))
     = Some ''NOPE''
   \<and> re_sub (substitute [(''0'', None, ''v0'')]) True
         (''// $MOD_CUTS'' @ [CHR 0x0A] @ ''  // $NOPE'' @ [CHR 0x0A] @ ''// $ALSO_BAD'')
     = Inl (AssertionError ''NOPE'')
   \<and> find (\<lambda>v. v \<notin> set known_directives)
        (directive_vars (''// $MOD_CUTS'' @ [CHR 0x0A] @ ''// $VERIFIER_CUTS''))
     = None
   \<and> (\<exists>out. re_sub (substitute [(''0'', None, ''v0'')]) True
          (''// $MOD_CUTS'' @ [CHR 0x0A] @ ''// $VERIFIER_CUTS'') = Inr out)
   \<and> (\<exists>out. substitute [(''0'', None, ''v0'')] ''  '' ''EXECUTOR_CUTS'' = Inr out)
   \<and> substitute [(''0'', None, ''v0''), (''u64::MAX'', Some ''NEXT'', ''next'')] ''  '' ''EXECUTOR_CUTS''
     = Inr (''  0 => Arc::new(v0::Executor::new('' @ [CHR 0x0A]
            @ ''      protocol_config,'' @ [CHR 0x0A]
            @ ''      paranoid_type_checks,'' @ [CHR 0x0A]
            @ ''      silent,'' @ [CHR 0x0A]
            @ ''  )?),'' @ [CHR 0x0A]
            @ [CHR 0x0A]
            @ ''  NEXT => Arc::new(next::Executor::new('' @ [CHR 0x0A]
            @ ''      protocol_config,'' @ [CHR 0x0A]
            @ ''      paranoid_type_checks,'' @ [CHR 0x0A]
            @ ''      silent,'' @ [CHR 0x0A]
            @ ''  )?),'' @ [CHR 0x0A])
   \<and> re_sub (substitute [(''0'', None, ''v0''), (''u64::MAX'', Some ''NEXT'', ''next'')]) True
         (''match v {'' @ [CHR 0x0A] @ ''  // $VERIFIER_CUTS'' @ [CHR 0x0A] @ ''}'')
     = Inr (''match v {'' @ [CHR 0x0A]
            @ ''  0 => Box::new(v0::Verifier::new(protocol_config, is_metered, metrics)),'' @ [CHR 0x0A]
            @ ''  NEXT => Box::new(next::Verifier::new(protocol_config, is_metered, metrics)),'' @ [CHR 0x0A]
            @ ''}'')"
proof -
  let ?T1 = "''// $MOD_CUTS'' @ [CHR 0x0A] @ ''  // $NOPE'' @ [CHR 0x0A] @ ''// $ALSO_BAD''"
  let ?T2 = "''// $MOD_CUTS'' @ [CHR 0x0A] @ ''// $VERIFIER_CUTS''"
  let ?C = "[(''0'', None, ''v0'')] :: cut list"
  let ?D = "[(''0'', None, ''v0''), (''u64::MAX'', Some ''NEXT'', ''next'')] :: cut list"
  let ?pre = "''match v {'' @ [CHR 0x0A]"
  let ?rest = "[CHR 0x0A] @ ''}''"
  have f1: "find (\<lambda>v. v \<notin> set known_directives) (directive_vars ?T1) = Some ''NOPE''"
    by code_simp
  have f2: "find (\<lambda>v. v \<notin> set known_directives) (directive_vars ?T2) = None"
    by code_simp
  have k: "''EXECUTOR_CUTS'' \<in> set known_directives"
    by (simp add: known_directives_def)
  have pre: "?pre = [] \<or> ends_nonblank_line ?pre" by code_simp
  have spc: "list_all is_space ''  ''" by code_simp
  have var: "''VERIFIER_CUTS'' \<in> set known_directives"
    by (simp add: known_directives_def)
  have rest: "at_eol ?rest" by simp
  note t1 = unknown_directive_raises [where template = ?T1 and cuts = ?C and spc = "''  ''"
      and pre = ?pre and var = "''VERIFIER_CUTS''" and rest = ?rest]
  note t2 = unknown_directive_raises [where template = ?T2 and cuts = ?C and spc = "''  ''"
      and pre = ?pre and var = "''VERIFIER_CUTS''" and rest = ?rest]
  note t3 = unknown_directive_raises [where template = ?T2 and cuts = ?D and spc = "''  ''"
      and pre = ?pre and var = "''VERIFIER_CUTS''" and rest = ?rest]
  from t1 have "\<forall>v. find (\<lambda>v. v \<notin> set known_directives) (directive_vars ?T1) = Some v
      \<longrightarrow> re_sub (substitute ?C) True ?T1 = Inl (AssertionError v)"
    by (rule conjunct1)
  then have "find (\<lambda>v. v \<notin> set known_directives) (directive_vars ?T1) = Some ''NOPE''
      \<longrightarrow> re_sub (substitute ?C) True ?T1 = Inl (AssertionError ''NOPE'')"
    by (rule spec)
  from this f1 have r1: "re_sub (substitute ?C) True ?T1 = Inl (AssertionError ''NOPE'')"
    by (rule mp)
  from t2 have "find (\<lambda>v. v \<notin> set known_directives) (directive_vars ?T2) = None
      \<longrightarrow> (\<exists>out. re_sub (substitute ?C) True ?T2 = Inr out)"
    by (rule conjunct1 [OF conjunct2])
  from this f2 have r2: "\<exists>out. re_sub (substitute ?C) True ?T2 = Inr out"
    by (rule mp)
  from t2 have "\<forall>v \<in> set known_directives. \<exists>out. substitute ?C ''  '' v = Inr out"
    by (rule conjunct1 [OF conjunct2 [OF conjunct2]])
  from this k have r3: "\<exists>out. substitute ?C ''  '' ''EXECUTOR_CUTS'' = Inr out"
    by (rule bspec)
  note tail = t3 [THEN conjunct2, THEN conjunct2, THEN conjunct2, THEN conjunct2, THEN conjunct2,
      THEN conjunct2]
  note t3_executor = tail [THEN conjunct1]
  note t3_line = tail [THEN conjunct2, THEN conjunct2]
  note t3_executor
  also have "Inr (join [CHR 0x0A]
                (map (\<lambda>c. ''  '' @ (case cut_const c of None \<Rightarrow> cut_version c
                                     | Some f \<Rightarrow> if f = [] then cut_version c else f)
                           @ '' => Arc::new('' @ cut_module c @ ''::Executor::new('' @ [CHR 0x0A]
                           @ ''  '' @ ''    protocol_config,'' @ [CHR 0x0A]
                           @ ''  '' @ ''    paranoid_type_checks,'' @ [CHR 0x0A]
                           @ ''  '' @ ''    silent,'' @ [CHR 0x0A]
                           @ ''  '' @ '')?),'' @ [CHR 0x0A])
                   ?D))
      = (Inr (''  0 => Arc::new(v0::Executor::new('' @ [CHR 0x0A]
            @ ''      protocol_config,'' @ [CHR 0x0A]
            @ ''      paranoid_type_checks,'' @ [CHR 0x0A]
            @ ''      silent,'' @ [CHR 0x0A]
            @ ''  )?),'' @ [CHR 0x0A]
            @ [CHR 0x0A]
            @ ''  NEXT => Arc::new(next::Executor::new('' @ [CHR 0x0A]
            @ ''      protocol_config,'' @ [CHR 0x0A]
            @ ''      paranoid_type_checks,'' @ [CHR 0x0A]
            @ ''      silent,'' @ [CHR 0x0A]
            @ ''  )?),'' @ [CHR 0x0A]) :: error + string)"
    by code_simp
  finally have r4: "substitute ?D ''  '' ''EXECUTOR_CUTS''
     = Inr (''  0 => Arc::new(v0::Executor::new('' @ [CHR 0x0A]
            @ ''      protocol_config,'' @ [CHR 0x0A]
            @ ''      paranoid_type_checks,'' @ [CHR 0x0A]
            @ ''      silent,'' @ [CHR 0x0A]
            @ ''  )?),'' @ [CHR 0x0A]
            @ [CHR 0x0A]
            @ ''  NEXT => Arc::new(next::Executor::new('' @ [CHR 0x0A]
            @ ''      protocol_config,'' @ [CHR 0x0A]
            @ ''      paranoid_type_checks,'' @ [CHR 0x0A]
            @ ''      silent,'' @ [CHR 0x0A]
            @ ''  )?),'' @ [CHR 0x0A])" .
  from t3_line conjI [OF pre conjI [OF spc conjI [OF var rest]]]
  have "re_sub (substitute ?D) True (?pre @ ''  '' @ ''// $'' @ ''VERIFIER_CUTS'' @ ?rest)
      = then_append (re_sub (substitute ?D) True ?pre)
          (then_append (substitute ?D ''  '' ''VERIFIER_CUTS'') (re_sub (substitute ?D) False ?rest))"
    by (rule mp)
  also have "\<dots> = Inr (''match v {'' @ [CHR 0x0A]
            @ ''  0 => Box::new(v0::Verifier::new(protocol_config, is_metered, metrics)),'' @ [CHR 0x0A]
            @ ''  NEXT => Box::new(next::Verifier::new(protocol_config, is_metered, metrics)),'' @ [CHR 0x0A]
            @ ''}'')"
    by code_simp
  finally have "re_sub (substitute ?D) True (?pre @ ''  '' @ ''// $'' @ ''VERIFIER_CUTS'' @ ?rest)
      = Inr (''match v {'' @ [CHR 0x0A]
            @ ''  0 => Box::new(v0::Verifier::new(protocol_config, is_metered, metrics)),'' @ [CHR 0x0A]
            @ ''  NEXT => Box::new(next::Verifier::new(protocol_config, is_metered, metrics)),'' @ [CHR 0x0A]
            @ ''}'')" .
  then have r5: "re_sub (substitute ?D) True
         (''match v {'' @ [CHR 0x0A] @ ''  // $VERIFIER_CUTS'' @ [CHR 0x0A] @ ''}'')
      = Inr (''match v {'' @ [CHR 0x0A]
            @ ''  0 => Box::new(v0::Verifier::new(protocol_config, is_metered, metrics)),'' @ [CHR 0x0A]
            @ ''  NEXT => Box::new(next::Verifier::new(protocol_config, is_metered, metrics)),'' @ [CHR 0x0A]
            @ ''}'')"
    by simp
  show ?thesis
    by (rule conjI [OF f1 conjI [OF r1 conjI [OF f2 conjI [OF r2 conjI [OF r3 conjI [OF r4 r5]]]]]])
qed

text \<open>
  C10. Only a line that consists of whitespace, the marker \<^verbatim>\<open>// $\<close> and an identifier of
  capital letters and underscores is a directive line (\<open>directive_var\<close> gives an identifier
  exactly for such a line). A template without directive lines is returned as it is, by
  any replacement function and without an error. In any template, a line that is not a
  directive line and is not blank is copied as it is, and what stands before and after the
  line is substituted by itself.
\<close>

theorem near_miss_lines_verbatim:
  "(directive_var l = Some v \<longleftrightarrow>
      (\<exists>ws. l = ws @ ''// $'' @ v \<and> list_all is_space ws \<and> v \<noteq> [] \<and> list_all is_upper_us v))
   \<and> (directive_vars t = [] \<longrightarrow> re_sub repl True t = Inr t)
   \<and> ((pre = [] \<or> last pre = CHR 0x0A) \<and> CHR 0x0A \<notin> set l \<and> \<not> list_all is_space l
        \<and> directive_var l = None \<and> at_eol e
        \<longrightarrow> re_sub repl True (pre @ l @ e)
             = then_append (re_sub repl True pre) (then_append (Inr l) (re_sub repl False e)))"
proof (intro conjI impI)
  show "directive_var l = Some v \<longleftrightarrow>
      (\<exists>ws. l = ws @ ''// $'' @ v \<and> list_all is_space ws \<and> v \<noteq> [] \<and> list_all is_upper_us v)"
    by (rule directive_var_iff)
next
  assume "directive_vars t = []"
  then have "directives_ahead True t = []" by (simp only: directives_ahead_True)
  then show "re_sub repl True t = Inr t" by (rule re_sub_verbatim)
next
  assume a: "(pre = [] \<or> last pre = CHR 0x0A) \<and> CHR 0x0A \<notin> set l \<and> \<not> list_all is_space l
        \<and> directive_var l = None \<and> at_eol e"
  then have "pre = [] \<or> last pre = CHR 0x0A" "CHR 0x0A \<notin> set l" "\<not> list_all is_space l"
    "directive_var l = None" "at_eol e"
    by simp_all
  then show "re_sub repl True (pre @ l @ e)
      = then_append (re_sub repl True pre) (then_append (Inr l) (re_sub repl False e))"
    by (rule re_sub_plain_line)
qed

theorem near_miss_lines_verbatim_witness:
  "directive_var ''// $mod_cuts'' = None
   \<and> directive_var ''  // $Mod_Cuts'' = None
   \<and> directive_var ''// $MOD_CUTS now'' = None
   \<and> directive_var ''//$MOD_CUTS'' = None
   \<and> directive_var ''  // $MOD_CUTS'' = Some ''MOD_CUTS''
   \<and> re_sub (\<lambda>spc var. Inl (AssertionError var)) True
        (''// $mod_cuts'' @ [CHR 0x0A] @ ''  // $Mod_Cuts'' @ [CHR 0x0A] @ ''//$MOD_CUTS'')
     = Inr (''// $mod_cuts'' @ [CHR 0x0A] @ ''  // $Mod_Cuts'' @ [CHR 0x0A] @ ''//$MOD_CUTS'')
   \<and> re_sub (substitute [(''0'', None, ''v0'')]) True
        (''  // $MOD_CUTS'' @ [CHR 0x0A] @ ''// $MOD_CUTS now'' @ [CHR 0x0A] @ ''  // $MOD_CUTS'')
     = Inr (''  mod v0;'' @ [CHR 0x0A] @ ''// $MOD_CUTS now'' @ [CHR 0x0A] @ ''  mod v0;'')"
proof -
  let ?T = "''// $mod_cuts'' @ [CHR 0x0A] @ ''  // $Mod_Cuts'' @ [CHR 0x0A] @ ''//$MOD_CUTS''"
  let ?pre = "''  // $MOD_CUTS'' @ [CHR 0x0A]"
  let ?l = "''// $MOD_CUTS now''"
  let ?e = "[CHR 0x0A] @ ''  // $MOD_CUTS''"
  let ?C = "[(''0'', None, ''v0'')] :: cut list"
  have n1: "directive_var ''// $mod_cuts'' = None" by code_simp
  have n2: "directive_var ''  // $Mod_Cuts'' = None" by code_simp
  have n3: "directive_var ?l = None" by code_simp
  have n4: "directive_var ''//$MOD_CUTS'' = None" by code_simp
  have shape: "\<exists>ws. ''  // $MOD_CUTS'' = ws @ ''// $'' @ ''MOD_CUTS'' \<and> list_all is_space ws
      \<and> ''MOD_CUTS'' \<noteq> [] \<and> list_all is_upper_us ''MOD_CUTS''"
    by (rule exI [of _ "''  ''"]) (simp add: is_space_def is_upper_us_def is_upper_def)
  note A = near_miss_lines_verbatim [where l = "''  // $MOD_CUTS''" and v = "''MOD_CUTS''"
      and t = ?T and repl = "\<lambda>spc var. Inl (AssertionError var)"]
  from A shape have s: "directive_var ''  // $MOD_CUTS'' = Some ''MOD_CUTS''"
    by (simp only:)
  have dv: "directive_vars ?T = []" by code_simp
  from A have "directive_vars ?T = [] \<longrightarrow> re_sub (\<lambda>spc var. Inl (AssertionError var)) True ?T = Inr ?T"
    by (rule conjunct1 [OF conjunct2])
  from this dv have v1: "re_sub (\<lambda>spc var. Inl (AssertionError var)) True ?T = Inr ?T"
    by (rule mp)
  note B = near_miss_lines_verbatim [where l = ?l and pre = ?pre and e = ?e and repl = "substitute ?C"]
  have hyp: "(?pre = [] \<or> last ?pre = CHR 0x0A) \<and> CHR 0x0A \<notin> set ?l \<and> \<not> list_all is_space ?l
        \<and> directive_var ?l = None \<and> at_eol ?e"
    using n3 by (simp add: is_space_def)
  from B have "(?pre = [] \<or> last ?pre = CHR 0x0A) \<and> CHR 0x0A \<notin> set ?l \<and> \<not> list_all is_space ?l
        \<and> directive_var ?l = None \<and> at_eol ?e
      \<longrightarrow> re_sub (substitute ?C) True (?pre @ ?l @ ?e)
          = then_append (re_sub (substitute ?C) True ?pre)
              (then_append (Inr ?l) (re_sub (substitute ?C) False ?e))"
    by (rule conjunct2 [OF conjunct2])
  from this hyp have "re_sub (substitute ?C) True (?pre @ ?l @ ?e)
      = then_append (re_sub (substitute ?C) True ?pre)
          (then_append (Inr ?l) (re_sub (substitute ?C) False ?e))"
    by (rule mp)
  also have "\<dots> = Inr (''  mod v0;'' @ [CHR 0x0A] @ ''// $MOD_CUTS now'' @ [CHR 0x0A] @ ''  mod v0;'')"
    by code_simp
  finally have v2: "re_sub (substitute ?C) True (?pre @ ?l @ ?e)
      = Inr (''  mod v0;'' @ [CHR 0x0A] @ ''// $MOD_CUTS now'' @ [CHR 0x0A] @ ''  mod v0;'')" .
  from n1 n2 n3 n4 s v1 v2 show ?thesis by simp
qed

end
